theory Spec2Isabelle
  imports Main "HOL-Library.Word"
begin

unbundle bit_operations_syntax

section \<open>Python values and exceptions\<close>

text \<open>
  A Python \<open>bytes\<close> object is a list of 8-bit words.  A bit string (a \<open>str\<close> that the
  program builds from the digits 0 and 1 only) is a list of booleans, \<open>True\<close> for the
  digit 1.  Integers that the program only ever obtains from \<open>len\<close>, \<open>int(s, 2)\<close>,
  \<open>int.from_bytes\<close>, table look-ups and sums of those are natural numbers; parameters a
  caller chooses (round count, block size) and table entries used as indices are integers.
  An exception is a value of type \<open>error\<close>; a \<open>ValueError\<close> carries the fixed part of
  its message.
\<close>

type_synonym byte = "8 word"

datatype error =
    ValueError string
  | IndexError
  | ZeroDivisionError
  | OverflowError
  | BinasciiError

definition err_bind :: "error + 'a \<Rightarrow> ('a \<Rightarrow> error + 'b) \<Rightarrow> error + 'b" where
  "err_bind m f = (case m of Inl e \<Rightarrow> Inl e | Inr x \<Rightarrow> f x)"

text \<open>A comprehension whose element expression may raise: the first exception ends it.\<close>

fun map_err :: "('a \<Rightarrow> error + 'b) \<Rightarrow> 'a list \<Rightarrow> error + 'b list" where
  "map_err f [] = Inr []"
| "map_err f (x # xs) =
     (case f x of
        Inl e \<Rightarrow> Inl e
      | Inr y \<Rightarrow> (case map_err f xs of Inl e \<Rightarrow> Inl e | Inr ys \<Rightarrow> Inr (y # ys)))"

text \<open>\<open>xs[i]\<close>: a negative index counts from the end, anything out of range raises.\<close>

definition py_getitem :: "'a list \<Rightarrow> int \<Rightarrow> error + 'a" where
  "py_getitem xs i =
     (if 0 \<le> i \<and> i < int (length xs) then Inr (xs ! nat i)
      else if i < 0 \<and> - int (length xs) \<le> i then Inr (xs ! nat (int (length xs) + i))
      else Inl IndexError)"

text \<open>\<open>xs[i:j]\<close> for indices \<open>0 \<le> i\<close>, \<open>0 \<le> j\<close>; slices never raise.\<close>

definition py_slice :: "'a list \<Rightarrow> nat \<Rightarrow> nat \<Rightarrow> 'a list" where
  "py_slice xs i j = drop i (take j xs)"

text \<open>\<open>range(0, stop, step)\<close> for a positive step.\<close>

definition range_step :: "nat \<Rightarrow> nat \<Rightarrow> nat list" where
  "range_step stop step = map (\<lambda>k. k * step) [0..<(stop + step - 1) div step]"

text \<open>\<open>s.ljust(w, c)\<close>.\<close>

definition ljust :: "'a list \<Rightarrow> nat \<Rightarrow> 'a \<Rightarrow> 'a list" where
  "ljust s w c = s @ replicate (w - length s) c"

text \<open>
  \<open>int(s, 2)\<close> on a string of binary digits: the empty string raises \<open>ValueError\<close>.
\<close>

definition bits_val :: "bool list \<Rightarrow> nat" where
  "bits_val s = foldl (\<lambda>a b. 2 * a + (if b then 1 else 0)) 0 s"

definition py_int2 :: "bool list \<Rightarrow> error + nat" where
  "py_int2 s =
     (if s = [] then Inl (ValueError ''invalid literal for int() with base 2'')
      else Inr (bits_val s))"

text \<open>
  \<open>f'{n:0wb}'\<close> for \<open>n \<ge> 0\<close>: the binary digits of \<open>n\<close> (one digit for 0), filled with
  zeros on the left up to width \<open>w\<close>; a number that needs more than \<open>w\<close> digits keeps
  them all.
\<close>

fun bin_digits :: "nat \<Rightarrow> bool list" where
  "bin_digits n = (if n < 2 then [n = 1] else bin_digits (n div 2) @ [odd n])"

definition format_bin :: "nat \<Rightarrow> nat \<Rightarrow> bool list" where
  "format_bin w n = replicate (w - length (bin_digits n)) False @ bin_digits n"

text \<open>\<open>bytes(...)\<close> on an iterable of integers: each must be in \<open>range(256)\<close>.\<close>

definition byte_of_nat :: "nat \<Rightarrow> error + byte" where
  "byte_of_nat n =
     (if n < 256 then Inr (of_nat n) else Inl (ValueError ''bytes must be in range(0, 256)''))"

text \<open>\<open>int.from_bytes(b, 'big')\<close> and \<open>n.to_bytes(length, 'big')\<close> for \<open>n \<ge> 0\<close>.\<close>

definition int_from_bytes :: "byte list \<Rightarrow> nat" where
  "int_from_bytes bs = foldl (\<lambda>a b. a * 256 + unat b) 0 bs"

definition int_to_bytes :: "nat \<Rightarrow> int \<Rightarrow> error + byte list" where
  "int_to_bytes n len =
     (if len < 0 then Inl (ValueError ''length argument must be non-negative'')
      else if 256 ^ nat len \<le> n then Inl OverflowError
      else Inr (map (\<lambda>k. of_nat (n div 256 ^ (nat len - 1 - k))) [0..<nat len]))"

section \<open>Tables (des/des_core.py)\<close>

definition P_BOX :: "int list" where
  "P_BOX =
    [16, 7, 20, 21, 29, 12, 28, 17,
     1, 15, 23, 26, 5, 18, 31, 10,
     2, 8, 24, 14, 32, 27, 3, 9,
     19, 13, 30, 6, 22, 11, 4, 25]"

definition E_BOX :: "int list" where
  "E_BOX =
    [32, 1, 2, 3, 4, 5,
     4, 5, 6, 7, 8, 9,
     8, 9, 10, 11, 12, 13,
     12, 13, 14, 15, 16, 17,
     16, 17, 18, 19, 20, 21,
     20, 21, 22, 23, 24, 25,
     24, 25, 26, 27, 28, 29,
     28, 29, 30, 31, 32, 1]"

definition S_BOXES :: "nat list list" where
  "S_BOXES =
    [[14, 4, 13, 1, 2, 15, 11, 8, 3, 10, 6, 12, 5, 9, 0, 7,
      0, 15, 7, 4, 14, 2, 13, 1, 10, 6, 12, 11, 9, 5, 3, 8,
      4, 1, 14, 8, 13, 6, 2, 11, 15, 12, 9, 7, 3, 10, 5, 0,
      15, 12, 8, 2, 4, 9, 1, 7, 5, 11, 3, 14, 10, 0, 6, 13],

     [15, 1, 8, 14, 6, 11, 3, 4, 9, 7, 2, 13, 12, 0, 5, 10,
      3, 13, 4, 7, 15, 2, 8, 14, 12, 0, 1, 10, 6, 9, 11, 5,
      0, 14, 7, 11, 10, 4, 13, 1, 5, 8, 12, 6, 9, 3, 2, 15,
      13, 8, 10, 1, 3, 15, 4, 2, 11, 6, 7, 12, 0, 5, 14, 9],

     [10, 0, 9, 14, 6, 3, 15, 5, 1, 13, 12, 7, 11, 4, 2, 8,
      13, 7, 0, 9, 3, 4, 6, 10, 2, 8, 5, 14, 12, 11, 15, 1,
      13, 6, 4, 9, 8, 15, 3, 0, 11, 1, 2, 12, 5, 10, 14, 7,
      1, 10, 13, 0, 6, 9, 8, 7, 4, 15, 14, 3, 11, 5, 2, 12],

     [7, 13, 14, 3, 0, 6, 9, 10, 1, 2, 8, 5, 11, 12, 4, 15,
      13, 8, 11, 5, 6, 15, 0, 3, 4, 7, 2, 12, 1, 10, 14, 9,
      10, 6, 9, 0, 12, 11, 7, 13, 15, 1, 3, 14, 5, 2, 8, 4,
      3, 15, 0, 6, 10, 1, 13, 8, 9, 4, 5, 11, 12, 7, 2, 14],

     [2, 12, 4, 1, 7, 10, 11, 6, 8, 5, 3, 15, 13, 0, 14, 9,
      14, 11, 2, 12, 4, 7, 13, 1, 5, 0, 15, 10, 3, 9, 8, 6,
      4, 2, 1, 11, 10, 13, 7, 8, 15, 9, 12, 5, 6, 3, 0, 14,
      11, 8, 12, 7, 1, 14, 2, 13, 6, 15, 0, 9, 10, 4, 5, 3],

     [12, 1, 10, 15, 9, 2, 6, 8, 0, 13, 3, 4, 14, 7, 5, 11,
      10, 15, 4, 2, 7, 12, 9, 5, 6, 1, 13, 14, 0, 11, 3, 8,
      9, 14, 15, 5, 2, 8, 12, 3, 7, 0, 4, 10, 1, 13, 11, 6,
      4, 3, 2, 12, 9, 5, 15, 10, 11, 14, 1, 7, 6, 0, 8, 13],

     [4, 11, 2, 14, 15, 0, 8, 13, 3, 12, 9, 7, 5, 10, 6, 1,
      13, 0, 11, 7, 4, 9, 1, 10, 14, 3, 5, 12, 2, 15, 8, 6,
      1, 4, 11, 13, 12, 3, 7, 14, 10, 15, 6, 8, 0, 5, 9, 2,
      6, 11, 13, 8, 1, 4, 10, 7, 9, 5, 0, 15, 14, 2, 3, 12],

     [13, 2, 8, 4, 6, 15, 11, 1, 10, 9, 3, 14, 5, 0, 12, 7,
      1, 15, 13, 8, 10, 3, 7, 4, 12, 5, 6, 11, 0, 14, 9, 2,
      7, 11, 4, 1, 9, 12, 14, 2, 0, 6, 10, 13, 15, 3, 5, 8,
      2, 1, 14, 7, 4, 10, 8, 13, 15, 12, 9, 0, 3, 5, 6, 11]]"

definition PC_1 :: "int list" where
  "PC_1 =
    [57, 49, 41, 33, 25, 17, 9,
     1, 58, 50, 42, 34, 26, 18,
     10, 2, 59, 51, 43, 35, 27,
     19, 11, 3, 60, 52, 44, 36,
     63, 55, 47, 39, 31, 23, 15,
     7, 62, 54, 46, 38, 30, 22,
     14, 6, 61, 53, 45, 37, 29,
     21, 13, 5, 28, 20, 12, 4]"

definition PC_2 :: "int list" where
  "PC_2 =
    [14, 17, 11, 24, 1, 5,
     3, 28, 15, 6, 21, 10,
     23, 19, 12, 4, 26, 8,
     16, 7, 27, 20, 13, 2,
     41, 52, 31, 37, 47, 55,
     30, 40, 51, 45, 33, 48,
     44, 49, 39, 56, 34, 53,
     46, 42, 50, 36, 29, 32]"

definition ROTATIONS :: "int list" where
  "ROTATIONS = [1, 1, 2, 2, 2, 2, 2, 2, 1, 2, 2, 2, 2, 2, 2, 1]"

section \<open>Helpers (des/des_core.py)\<close>

definition bytes_to_bit_string :: "byte list \<Rightarrow> bool list" where
  "bytes_to_bit_string data = concat (map (\<lambda>b. format_bin 8 (unat b)) data)"

definition bit_string_to_bytes :: "bool list \<Rightarrow> error + byte list" where
  "bit_string_to_bytes bit_string =
     (let bit_string =
            (if length bit_string mod 8 \<noteq> 0
             then ljust bit_string ((length bit_string + 7) div 8 * 8) False
             else bit_string)
      in map_err (\<lambda>i. err_bind (py_int2 (py_slice bit_string i (i + 8))) byte_of_nat)
           (range_step (length bit_string) 8))"

definition rotate_left :: "bool list \<Rightarrow> int \<Rightarrow> error + bool list" where
  "rotate_left bit_string n =
     (if bit_string = [] then Inl ZeroDivisionError
      else
        let n = nat (n mod int (length bit_string))
        in Inr (drop n bit_string @ take n bit_string))"

definition permute :: "bool list \<Rightarrow> int list \<Rightarrow> error + bool list" where
  "permute data_str table = map_err (\<lambda>i. py_getitem data_str (i - 1)) table"

section \<open>The DES class (des/des_core.py)\<close>

record engine =
  des_block_size :: int
  des_rounds :: int
  des_keylen :: int
  des_iv :: "byte list option"
  des_key :: "byte list"
  des_subkeys :: "bool list list"

text \<open>The body of the loop of \<open>_generate_subkeys\<close>, over the values of \<open>range(rounds)\<close>.\<close>

fun subkeys_loop :: "nat list \<Rightarrow> bool list \<Rightarrow> bool list \<Rightarrow> error + bool list list" where
  "subkeys_loop [] C D = Inr []"
| "subkeys_loop (i # is) C D =
     (case py_getitem ROTATIONS (int i mod int (length ROTATIONS)) of
        Inl e \<Rightarrow> Inl e
      | Inr rc \<Rightarrow>
     (case rotate_left C rc of
        Inl e \<Rightarrow> Inl e
      | Inr C' \<Rightarrow>
     (case py_getitem ROTATIONS (int i mod int (length ROTATIONS)) of
        Inl e \<Rightarrow> Inl e
      | Inr rd \<Rightarrow>
     (case rotate_left D rd of
        Inl e \<Rightarrow> Inl e
      | Inr D' \<Rightarrow>
     (case permute (C' @ D') PC_2 of
        Inl e \<Rightarrow> Inl e
      | Inr k \<Rightarrow>
     (case subkeys_loop is C' D' of
        Inl e \<Rightarrow> Inl e
      | Inr ks \<Rightarrow> Inr (k # ks)))))))"

text \<open>\<open>_generate_subkeys\<close> reads \<open>self.key\<close> and \<open>self.rounds\<close> only.\<close>

definition generate_subkeys :: "byte list \<Rightarrow> int \<Rightarrow> error + bool list list" where
  "generate_subkeys key rounds =
     (let key_str = bytes_to_bit_string key
      in case permute key_str PC_1 of
           Inl e \<Rightarrow> Inl e
         | Inr pc1_key \<Rightarrow>
             subkeys_loop [0..<nat rounds] (take 28 pc1_key) (drop 28 pc1_key))"

text \<open>
  \<open>DES.__init__\<close>.  Its \<open>mode\<close> argument is not read and not stored, so the model has
  no such parameter.
\<close>

definition DES_init ::
  "byte list \<Rightarrow> int \<Rightarrow> int \<Rightarrow> int \<Rightarrow> byte list option \<Rightarrow> error + engine" where
  "DES_init key block_size rounds keylen iv =
     (let key = (if length key < 8 then ljust key 8 0
                 else if length key > 8 then take 8 key
                 else key)
      in case generate_subkeys key rounds of
           Inl e \<Rightarrow> Inl e
         | Inr sk \<Rightarrow>
             Inr \<lparr>des_block_size = block_size, des_rounds = rounds, des_keylen = keylen,
                  des_iv = iv, des_key = key, des_subkeys = sk\<rparr>)"

text \<open>
  The S-box loop of \<open>_feistel_function\<close>, over the values of \<open>range(8)\<close>; \<open>S_BOXES\<close>
  has eight rows, so \<open>S_BOXES[i]\<close> is in range there.
\<close>

fun sbox_loop :: "bool list \<Rightarrow> nat list \<Rightarrow> bool list \<Rightarrow> error + bool list" where
  "sbox_loop xor_result [] s_box_output = Inr s_box_output"
| "sbox_loop xor_result (i # is) s_box_output =
     (let chunk = py_slice xor_result (i * 6) ((i + 1) * 6)
      in if length chunk < 6 then Inl (ValueError ''Incomplete 6-bit chunk'')
         else
           (case py_int2 [chunk ! 0, chunk ! 5] of
              Inl e \<Rightarrow> Inl e
            | Inr row \<Rightarrow>
           (case py_int2 (py_slice chunk 1 5) of
              Inl e \<Rightarrow> Inl e
            | Inr col \<Rightarrow>
                if length (S_BOXES ! i) \<le> row * 16 + col
                then Inl (ValueError ''S-Box index out of range'')
                else sbox_loop xor_result is
                       (s_box_output @ format_bin 4 (S_BOXES ! i ! (row * 16 + col))))))"

definition feistel_function :: "bool list \<Rightarrow> bool list \<Rightarrow> error + bool list" where
  "feistel_function R K =
     (case permute R E_BOX of
        Inl e \<Rightarrow> Inl e
      | Inr expanded_R \<Rightarrow>
     (case py_int2 expanded_R of
        Inl e \<Rightarrow> Inl e
      | Inr a \<Rightarrow>
     (case py_int2 K of
        Inl e \<Rightarrow> Inl e
      | Inr b \<Rightarrow>
          let xor_result = format_bin 48 (a XOR b)
          in if length xor_result \<noteq> 48 then Inl (ValueError ''Invalid expanded length'')
             else
               (case sbox_loop xor_result [0..<8] [] of
                  Inl e \<Rightarrow> Inl e
                | Inr s_box_output \<Rightarrow> permute s_box_output P_BOX))))"

text \<open>The round loop of \<open>_process_block\<close>, over the values of \<open>range(rounds)\<close>.\<close>

fun rounds_loop ::
  "bool list list \<Rightarrow> nat list \<Rightarrow> bool list \<Rightarrow> bool list \<Rightarrow> error + bool list \<times> bool list" where
  "rounds_loop keys [] L R = Inr (L, R)"
| "rounds_loop keys (i # is) L R =
     (case py_getitem keys (int i) of
        Inl e \<Rightarrow> Inl e
      | Inr k \<Rightarrow>
     (case feistel_function R k of
        Inl e \<Rightarrow> Inl e
      | Inr f_res \<Rightarrow>
     (case py_int2 L of
        Inl e \<Rightarrow> Inl e
      | Inr a \<Rightarrow>
     (case py_int2 f_res of
        Inl e \<Rightarrow> Inl e
      | Inr b \<Rightarrow> rounds_loop keys is R (format_bin 32 (a XOR b))))))"

definition process_block :: "engine \<Rightarrow> byte list \<Rightarrow> bool \<Rightarrow> error + byte list" where
  "process_block e block decrypt_mode =
     (if length block \<noteq> 8 then Inl (ValueError ''Invalid block size'')
      else
        let block_str = bytes_to_bit_string block;
            L = take 32 block_str;
            R = drop 32 block_str;
            keys = (if decrypt_mode then rev (des_subkeys e) else des_subkeys e)
        in case rounds_loop keys [0..<nat (des_rounds e)] L R of
             Inl x \<Rightarrow> Inl x
           | Inr (L', R') \<Rightarrow> bit_string_to_bytes (R' @ L'))"

definition encrypt_block :: "engine \<Rightarrow> byte list \<Rightarrow> error + byte list" where
  "encrypt_block e block = process_block e block False"

definition decrypt_block :: "engine \<Rightarrow> byte list \<Rightarrow> error + byte list" where
  "decrypt_block e block = process_block e block True"

section \<open>Padding (des/modes.py)\<close>

text \<open>
  \<open>bytes([n])\<close> raises \<open>ValueError\<close> unless \<open>0 \<le> n < 256\<close>; \<open>%\<close> by zero raises
  \<open>ZeroDivisionError\<close>.
\<close>

definition pad :: "byte list \<Rightarrow> int \<Rightarrow> error + byte list" where
  "pad data block_size =
     (if block_size = 0 then Inl ZeroDivisionError
      else
        let padding_len = block_size - (int (length data) mod block_size);
            padding_len = (if padding_len = 0 then block_size else padding_len)
        in if padding_len < 0 \<or> 256 \<le> padding_len
           then Inl (ValueError ''bytes must be in range(0, 256)'')
           else Inr (data @ replicate (nat padding_len) (word_of_int padding_len)))"

definition unpad :: "byte list \<Rightarrow> int \<Rightarrow> byte list" where
  "unpad data block_size =
     (if data = [] then []
      else
        let padding_len = uint (last data)
        in if padding_len < 1 \<or> padding_len > block_size \<or> padding_len > int (length data)
           then data
           else take (length data - nat padding_len) data)"



section \<open>The engine's own encrypt and decrypt (des/des_core.py)\<close>

text \<open>
  \<open>DES.encrypt\<close> and \<open>DES.decrypt\<close> call \<open>b64encode\<close> and \<open>b64decode\<close> of Python's
  standard library, which is not code of the repository.  The model follows RFC 4648
  for the encoder and the decoder of the module \<open>binascii\<close> in its default, non-strict
  mode: the alphabet is A to Z, a to z, 0 to 9, plus and slash, the pad character is the
  equals sign (code 61); the decoder skips bytes outside the alphabet, stops at a pad
  sequence that completes a group and raises \<open>binascii.Error\<close> when the data ends inside
  a group.  Where the library combines two bit fields with \<open>|\<close>, the fields have no bit
  in common and the model adds them.
\<close>

definition b64_char :: "nat \<Rightarrow> byte" where
  "b64_char v =
     (if v < 26 then of_nat (65 + v)
      else if v < 52 then of_nat (71 + v)
      else if v < 62 then of_nat (v - 4)
      else if v = 62 then 43
      else 47)"

definition b64_value :: "byte \<Rightarrow> nat option" where
  "b64_value c =
     (if 65 \<le> unat c \<and> unat c \<le> 90 then Some (unat c - 65)
      else if 97 \<le> unat c \<and> unat c \<le> 122 then Some (unat c - 71)
      else if 48 \<le> unat c \<and> unat c \<le> 57 then Some (unat c + 4)
      else if unat c = 43 then Some 62
      else if unat c = 47 then Some 63
      else None)"

fun b64encode :: "byte list \<Rightarrow> byte list" where
  "b64encode (a # b # c # rest) =
     [b64_char (unat a div 4),
      b64_char (unat a mod 4 * 16 + unat b div 16),
      b64_char (unat b mod 16 * 4 + unat c div 64),
      b64_char (unat c mod 64)] @ b64encode rest"
| "b64encode [a, b] =
     [b64_char (unat a div 4),
      b64_char (unat a mod 4 * 16 + unat b div 16),
      b64_char (unat b mod 16 * 4),
      61]"
| "b64encode [a] = [b64_char (unat a div 4), b64_char (unat a mod 4 * 16), 61, 61]"
| "b64encode [] = []"

text \<open>
  The decoder's loop over the input, with its state: the position in the current group
  of four, the bits left over from the previous character, the pad characters seen in
  a row, and the bytes written so far.
\<close>

fun a2b_loop :: "byte list \<Rightarrow> nat \<Rightarrow> nat \<Rightarrow> nat \<Rightarrow> byte list \<Rightarrow> error + byte list" where
  "a2b_loop [] quad_pos leftchar pads out =
     (if quad_pos \<noteq> 0 then Inl BinasciiError else Inr out)"
| "a2b_loop (this_ch # rest) quad_pos leftchar pads out =
     (if this_ch = 61 then
        (if 2 \<le> quad_pos \<and> 4 \<le> quad_pos + (pads + 1) then Inr out
         else a2b_loop rest quad_pos leftchar (if 2 \<le> quad_pos then pads + 1 else pads) out)
      else
        (case b64_value this_ch of
           None \<Rightarrow> a2b_loop rest quad_pos leftchar pads out
         | Some v \<Rightarrow>
             if quad_pos = 0 then a2b_loop rest 1 v 0 out
             else if quad_pos = 1
               then a2b_loop rest 2 (v mod 16) 0 (out @ [of_nat (leftchar * 4 + v div 16)])
             else if quad_pos = 2
               then a2b_loop rest 3 (v mod 4) 0 (out @ [of_nat (leftchar * 16 + v div 4)])
             else a2b_loop rest 0 0 0 (out @ [of_nat (leftchar * 64 + v)])))"

definition b64decode :: "byte list \<Rightarrow> error + byte list" where
  "b64decode s = a2b_loop s 0 0 0 []"

text \<open>
  \<open>DES.encrypt\<close> is \<open>b64encode(plaintext[::-1])\<close> and \<open>DES.decrypt\<close> is
  \<open>b64decode(ciphertext)[::-1]\<close>; neither reads a field of the engine.
\<close>

definition DES_encrypt :: "engine \<Rightarrow> byte list \<Rightarrow> byte list" where
  "DES_encrypt e plaintext = b64encode (rev plaintext)"

definition DES_decrypt :: "engine \<Rightarrow> byte list \<Rightarrow> error + byte list" where
  "DES_decrypt e ciphertext =
     (case b64decode ciphertext of Inl x \<Rightarrow> Inl x | Inr d \<Rightarrow> Inr (rev d))"


section \<open>Modes of operation (des/modes.py)\<close>

text \<open>
  The state of a \<open>_BaseMode\<close> object.  The five mode classes add no fields and do not
  override the constructor; they differ in \<open>encrypt\<close> and \<open>decrypt\<close> only.
\<close>

record mode =
  mode_des :: "engine option"
  mode_block_size_bytes :: int
  mode_iv :: "byte list option"

text \<open>
  \<open>_BaseMode.__init__\<close>.  No statement of the constructor raises: the result is a
  mode object on both branches.
\<close>

definition BaseMode_init :: "engine option \<Rightarrow> error + mode" where
  "BaseMode_init des_engine =
     (case des_engine of
        Some des \<Rightarrow>
          Inr \<lparr>mode_des = Some des, mode_block_size_bytes = des_block_size des div 8,
               mode_iv = des_iv des\<rparr>
      | None \<Rightarrow> Inr \<lparr>mode_des = None, mode_block_size_bytes = 0, mode_iv = None\<rparr>)"

text \<open>
  \<open>_get_blocks\<close>: \<open>range(0, len(data), step)\<close> is empty for a negative step.
\<close>

definition get_blocks :: "mode \<Rightarrow> byte list \<Rightarrow> error + byte list list" where
  "get_blocks m data =
     (if mode_block_size_bytes m = 0 then Inl (ValueError ''DES engine or block size not set'')
      else if mode_block_size_bytes m < 0 then Inr []
      else Inr (map (\<lambda>i. py_slice data i (i + nat (mode_block_size_bytes m)))
                  (range_step (length data) (nat (mode_block_size_bytes m)))))"

text \<open>\<open>bytes(p ^ c for p, c in zip(a, b))\<close>: as long as the shorter argument.\<close>

definition xor_bytes :: "byte list \<Rightarrow> byte list \<Rightarrow> byte list" where
  "xor_bytes a b = map2 (XOR) a b"

subsection \<open>ECB\<close>

definition ECB_encrypt :: "mode \<Rightarrow> byte list \<Rightarrow> error + byte list" where
  "ECB_encrypt m plaintext =
     (case mode_des m of
        None \<Rightarrow> Inl (ValueError ''DES engine not set'')
      | Some des \<Rightarrow>
     (case pad plaintext (mode_block_size_bytes m) of
        Inl e \<Rightarrow> Inl e
      | Inr padded \<Rightarrow>
     (case get_blocks m padded of
        Inl e \<Rightarrow> Inl e
      | Inr blocks \<Rightarrow>
     (case map_err (encrypt_block des) blocks of
        Inl e \<Rightarrow> Inl e
      | Inr encrypted \<Rightarrow> Inr (concat encrypted)))))"

definition ECB_decrypt :: "mode \<Rightarrow> byte list \<Rightarrow> error + byte list" where
  "ECB_decrypt m ciphertext =
     (case mode_des m of
        None \<Rightarrow> Inl (ValueError ''DES engine not set'')
      | Some des \<Rightarrow>
     (case get_blocks m ciphertext of
        Inl e \<Rightarrow> Inl e
      | Inr blocks \<Rightarrow>
     (case map_err (decrypt_block des) blocks of
        Inl e \<Rightarrow> Inl e
      | Inr decrypted \<Rightarrow> Inr (unpad (concat decrypted) (mode_block_size_bytes m)))))"

subsection \<open>CBC\<close>

fun cbc_encrypt_loop :: "engine \<Rightarrow> byte list list \<Rightarrow> byte list \<Rightarrow> error + byte list list" where
  "cbc_encrypt_loop des [] previous_block = Inr []"
| "cbc_encrypt_loop des (block # blocks) previous_block =
     (case encrypt_block des (xor_bytes block previous_block) of
        Inl e \<Rightarrow> Inl e
      | Inr cipher_block \<Rightarrow>
     (case cbc_encrypt_loop des blocks cipher_block of
        Inl e \<Rightarrow> Inl e
      | Inr encrypted_blocks \<Rightarrow> Inr (cipher_block # encrypted_blocks)))"

fun cbc_decrypt_loop :: "engine \<Rightarrow> byte list list \<Rightarrow> byte list \<Rightarrow> error + byte list list" where
  "cbc_decrypt_loop des [] previous_block = Inr []"
| "cbc_decrypt_loop des (block # blocks) previous_block =
     (case decrypt_block des block of
        Inl e \<Rightarrow> Inl e
      | Inr decrypted_block \<Rightarrow>
     (case cbc_decrypt_loop des blocks block of
        Inl e \<Rightarrow> Inl e
      | Inr decrypted_blocks \<Rightarrow>
          Inr (xor_bytes decrypted_block previous_block # decrypted_blocks)))"

definition CBC_encrypt :: "mode \<Rightarrow> byte list \<Rightarrow> error + byte list" where
  "CBC_encrypt m plaintext =
     (case mode_des m of
        None \<Rightarrow> Inl (ValueError ''DES engine not set'')
      | Some des \<Rightarrow>
     (if mode_iv m = None \<or> mode_iv m = Some []
      then Inl (ValueError ''IV must be set for CBC mode'')
      else
     (case pad plaintext (mode_block_size_bytes m) of
        Inl e \<Rightarrow> Inl e
      | Inr padded \<Rightarrow>
     (case get_blocks m padded of
        Inl e \<Rightarrow> Inl e
      | Inr blocks \<Rightarrow>
     (case cbc_encrypt_loop des blocks (the (mode_iv m)) of
        Inl e \<Rightarrow> Inl e
      | Inr encrypted_blocks \<Rightarrow> Inr (concat encrypted_blocks))))))"

definition CBC_decrypt :: "mode \<Rightarrow> byte list \<Rightarrow> error + byte list" where
  "CBC_decrypt m ciphertext =
     (case mode_des m of
        None \<Rightarrow> Inl (ValueError ''DES engine not set'')
      | Some des \<Rightarrow>
     (if mode_iv m = None \<or> mode_iv m = Some []
      then Inl (ValueError ''IV must be set for CBC mode'')
      else
     (case get_blocks m ciphertext of
        Inl e \<Rightarrow> Inl e
      | Inr blocks \<Rightarrow>
     (case cbc_decrypt_loop des blocks (the (mode_iv m)) of
        Inl e \<Rightarrow> Inl e
      | Inr decrypted_blocks \<Rightarrow>
          Inr (unpad (concat decrypted_blocks) (mode_block_size_bytes m))))))"

subsection \<open>CFB\<close>

fun cfb_encrypt_loop :: "engine \<Rightarrow> byte list list \<Rightarrow> byte list \<Rightarrow> error + byte list list" where
  "cfb_encrypt_loop des [] prev_cipher = Inr []"
| "cfb_encrypt_loop des (block # blocks) prev_cipher =
     (case encrypt_block des prev_cipher of
        Inl e \<Rightarrow> Inl e
      | Inr encrypted_iv \<Rightarrow>
     (case cfb_encrypt_loop des blocks (xor_bytes block encrypted_iv) of
        Inl e \<Rightarrow> Inl e
      | Inr encrypted_blocks \<Rightarrow> Inr (xor_bytes block encrypted_iv # encrypted_blocks)))"

fun cfb_decrypt_loop :: "engine \<Rightarrow> byte list list \<Rightarrow> byte list \<Rightarrow> error + byte list list" where
  "cfb_decrypt_loop des [] prev_cipher = Inr []"
| "cfb_decrypt_loop des (block # blocks) prev_cipher =
     (case encrypt_block des prev_cipher of
        Inl e \<Rightarrow> Inl e
      | Inr encrypted_iv \<Rightarrow>
     (case cfb_decrypt_loop des blocks block of
        Inl e \<Rightarrow> Inl e
      | Inr decrypted_blocks \<Rightarrow> Inr (xor_bytes block encrypted_iv # decrypted_blocks)))"

definition CFB_encrypt :: "mode \<Rightarrow> byte list \<Rightarrow> error + byte list" where
  "CFB_encrypt m plaintext =
     (case mode_des m of
        None \<Rightarrow> Inl (ValueError ''DES engine not set'')
      | Some des \<Rightarrow>
     (if mode_iv m = None \<or> mode_iv m = Some []
      then Inl (ValueError ''IV must be set for CFB mode'')
      else
     (case pad plaintext (mode_block_size_bytes m) of
        Inl e \<Rightarrow> Inl e
      | Inr padded \<Rightarrow>
     (case get_blocks m padded of
        Inl e \<Rightarrow> Inl e
      | Inr blocks \<Rightarrow>
     (case cfb_encrypt_loop des blocks (the (mode_iv m)) of
        Inl e \<Rightarrow> Inl e
      | Inr encrypted_blocks \<Rightarrow> Inr (concat encrypted_blocks))))))"

definition CFB_decrypt :: "mode \<Rightarrow> byte list \<Rightarrow> error + byte list" where
  "CFB_decrypt m ciphertext =
     (case mode_des m of
        None \<Rightarrow> Inl (ValueError ''DES engine not set'')
      | Some des \<Rightarrow>
     (if mode_iv m = None \<or> mode_iv m = Some []
      then Inl (ValueError ''IV must be set for CFB mode'')
      else
     (case get_blocks m ciphertext of
        Inl e \<Rightarrow> Inl e
      | Inr blocks \<Rightarrow>
     (case cfb_decrypt_loop des blocks (the (mode_iv m)) of
        Inl e \<Rightarrow> Inl e
      | Inr decrypted_blocks \<Rightarrow>
          Inr (unpad (concat decrypted_blocks) (mode_block_size_bytes m))))))"

subsection \<open>OFB\<close>

fun ofb_loop :: "engine \<Rightarrow> byte list list \<Rightarrow> byte list \<Rightarrow> error + byte list list" where
  "ofb_loop des [] feedback = Inr []"
| "ofb_loop des (block # blocks) feedback =
     (case encrypt_block des feedback of
        Inl e \<Rightarrow> Inl e
      | Inr output_block \<Rightarrow>
     (case ofb_loop des blocks output_block of
        Inl e \<Rightarrow> Inl e
      | Inr encrypted_blocks \<Rightarrow> Inr (xor_bytes block output_block # encrypted_blocks)))"

definition OFB_encrypt :: "mode \<Rightarrow> byte list \<Rightarrow> error + byte list" where
  "OFB_encrypt m plaintext =
     (case mode_des m of
        None \<Rightarrow> Inl (ValueError ''DES engine not set'')
      | Some des \<Rightarrow>
     (if mode_iv m = None \<or> mode_iv m = Some []
      then Inl (ValueError ''IV must be set for OFB mode'')
      else
     (case pad plaintext (mode_block_size_bytes m) of
        Inl e \<Rightarrow> Inl e
      | Inr padded \<Rightarrow>
     (case get_blocks m padded of
        Inl e \<Rightarrow> Inl e
      | Inr blocks \<Rightarrow>
     (case ofb_loop des blocks (the (mode_iv m)) of
        Inl e \<Rightarrow> Inl e
      | Inr encrypted_blocks \<Rightarrow> Inr (concat encrypted_blocks))))))"

text \<open>\<open>OFB.decrypt\<close> is \<open>return self.encrypt(ciphertext)\<close>.\<close>

definition OFB_decrypt :: "mode \<Rightarrow> byte list \<Rightarrow> error + byte list" where
  "OFB_decrypt m ciphertext = OFB_encrypt m ciphertext"

subsection \<open>CTR\<close>

fun ctr_loop :: "engine \<Rightarrow> int \<Rightarrow> byte list list \<Rightarrow> nat \<Rightarrow> error + byte list list" where
  "ctr_loop des block_len [] counter = Inr []"
| "ctr_loop des block_len (block # blocks) counter =
     (case int_to_bytes counter block_len of
        Inl e \<Rightarrow> Inl e
      | Inr counter_block \<Rightarrow>
     (case encrypt_block des counter_block of
        Inl e \<Rightarrow> Inl e
      | Inr output_block \<Rightarrow>
     (case ctr_loop des block_len blocks (counter + 1) of
        Inl e \<Rightarrow> Inl e
      | Inr encrypted_blocks \<Rightarrow> Inr (xor_bytes block output_block # encrypted_blocks))))"

definition CTR_encrypt :: "mode \<Rightarrow> byte list \<Rightarrow> error + byte list" where
  "CTR_encrypt m plaintext =
     (case mode_des m of
        None \<Rightarrow> Inl (ValueError ''DES engine not set'')
      | Some des \<Rightarrow>
     (if mode_iv m = None \<or> mode_iv m = Some []
      then Inl (ValueError ''IV must be set for CTR mode'')
      else
     (case pad plaintext (mode_block_size_bytes m) of
        Inl e \<Rightarrow> Inl e
      | Inr padded \<Rightarrow>
     (case get_blocks m padded of
        Inl e \<Rightarrow> Inl e
      | Inr blocks \<Rightarrow>
     (case ctr_loop des (mode_block_size_bytes m) blocks (int_from_bytes (the (mode_iv m))) of
        Inl e \<Rightarrow> Inl e
      | Inr encrypted_blocks \<Rightarrow> Inr (concat encrypted_blocks))))))"

text \<open>\<open>CTR.decrypt\<close> is \<open>return self.encrypt(ciphertext)\<close>.\<close>

definition CTR_decrypt :: "mode \<Rightarrow> byte list \<Rightarrow> error + byte list" where
  "CTR_decrypt m ciphertext = CTR_encrypt m ciphertext"

subsection \<open>The five classes\<close>

datatype mode_kind = ECB | CBC | CFB | OFB | CTR

fun mode_encrypt :: "mode_kind \<Rightarrow> mode \<Rightarrow> byte list \<Rightarrow> error + byte list" where
  "mode_encrypt ECB = ECB_encrypt"
| "mode_encrypt CBC = CBC_encrypt"
| "mode_encrypt CFB = CFB_encrypt"
| "mode_encrypt OFB = OFB_encrypt"
| "mode_encrypt CTR = CTR_encrypt"

fun mode_decrypt :: "mode_kind \<Rightarrow> mode \<Rightarrow> byte list \<Rightarrow> error + byte list" where
  "mode_decrypt ECB = ECB_decrypt"
| "mode_decrypt CBC = CBC_decrypt"
| "mode_decrypt CFB = CFB_decrypt"
| "mode_decrypt OFB = OFB_decrypt"
| "mode_decrypt CTR = CTR_decrypt"


section \<open>The CTR key stream as the specification words it\<close>

text \<open>
  Key stream block \<open>i\<close> is the encryption of the 8-byte big-endian encoding of the
  initialization vector, read as a big-endian integer, plus \<open>i\<close>; no other block enters.
\<close>

definition ctr_keystream_direct :: "engine \<Rightarrow> byte list \<Rightarrow> nat \<Rightarrow> error + byte list" where
  "ctr_keystream_direct e iv i =
     (case int_to_bytes (int_from_bytes iv + i) 8 of
        Inl x \<Rightarrow> Inl x
      | Inr counter_block \<Rightarrow> encrypt_block e counter_block)"

section \<open>Example inputs\<close>

text \<open>
  The key \<open>MYSECRET\<close>, the initialization vector \<open>12345678\<close> and the plaintext
  \<open>HELLOALI\<close> of the specification's scenario, as ASCII codes; the engine with 16 rounds
  built from them, with and without the initialization vector, and the mode objects over
  these engines.
\<close>

definition example_key :: "byte list" where
  "example_key = [77, 89, 83, 69, 67, 82, 69, 84]"

definition example_iv :: "byte list" where
  "example_iv = [49, 50, 51, 52, 53, 54, 55, 56]"

definition example_plaintext :: "byte list" where
  "example_plaintext = [72, 69, 76, 76, 79, 65, 76, 73]"

definition example_engine :: engine where
  "example_engine = projr (DES_init example_key 64 16 64 (Some example_iv))"

definition example_mode :: mode where
  "example_mode = projr (BaseMode_init (Some example_engine))"

definition example_engine_no_iv :: engine where
  "example_engine_no_iv = projr (DES_init example_key 64 16 64 None)"

definition example_mode_no_iv :: mode where
  "example_mode_no_iv = projr (BaseMode_init (Some example_engine_no_iv))"


section \<open>Auxiliary notions for the proofs\<close>

text \<open>Cutting a list into consecutive pieces of \<open>n\<close> elements, by recursion.\<close>

fun chunks :: "nat \<Rightarrow> 'a list \<Rightarrow> 'a list list" where
  "chunks n xs = (if n = 0 \<or> xs = [] then [] else take n xs # chunks n (drop n xs))"

text \<open>Bitwise exclusive or of two bit strings.\<close>

definition xor_bits :: "bool list \<Rightarrow> bool list \<Rightarrow> bool list" where
  "xor_bits s t = map2 (\<noteq>) s t"

text \<open>
  The value \<open>_feistel_function\<close> returns, as a total function (empty where it raises),
  one round of \<open>_process_block\<close> on the pair \<open>(L, R)\<close>, and the rounds for a list of
  subkeys taken in order.
\<close>

definition round_fn :: "bool list \<Rightarrow> bool list \<Rightarrow> bool list" where
  "round_fn R K = (case feistel_function R K of Inl e \<Rightarrow> [] | Inr y \<Rightarrow> y)"

fun feistel_step :: "bool list \<times> bool list \<Rightarrow> bool list \<Rightarrow> bool list \<times> bool list" where
  "feistel_step (L, R) k = (R, xor_bits L (round_fn R k))"

definition feistel_rounds ::
  "bool list list \<Rightarrow> bool list \<times> bool list \<Rightarrow> bool list \<times> bool list" where
  "feistel_rounds ks s = foldl feistel_step s ks"

text \<open>The bytes of a bit string whose length is a multiple of 8.\<close>

definition bits_to_bytes :: "bool list \<Rightarrow> byte list" where
  "bits_to_bytes s = map (\<lambda>c. of_nat (bits_val c)) (chunks 8 s)"

text \<open>
  An engine as \<open>DES.__init__\<close> leaves it: one subkey of 48 bits for each round.
\<close>

definition wf_engine :: "engine \<Rightarrow> bool" where
  "wf_engine e \<longleftrightarrow>
     length (des_subkeys e) = nat (des_rounds e) \<and> list_all (\<lambda>k. length k = 48) (des_subkeys e)"

text \<open>Both halves of a block are 32 bits long.\<close>

definition halves_ok :: "bool list \<times> bool list \<Rightarrow> bool" where
  "halves_ok s \<longleftrightarrow> length (fst s) = 32 \<and> length (snd s) = 32"

text \<open>The two halves of a block, and the bytes of the result of the rounds.\<close>

definition split_block :: "byte list \<Rightarrow> bool list \<times> bool list" where
  "split_block block = (take 32 (bytes_to_bit_string block), drop 32 (bytes_to_bit_string block))"

definition join_block :: "bool list \<times> bool list \<Rightarrow> byte list" where
  "join_block s = bits_to_bytes (snd s @ fst s)"

section \<open>The key schedule as the specification words it\<close>

text \<open>
  A selection permutation picks, for each table entry \<open>i\<close>, bit \<open>i\<close> of its input
  (counted from 1).  The rotation amount of round \<open>i\<close> is entry \<open>i mod 16\<close> of the
  rotation table.  The halves after \<open>i\<close> rounds are the halves after \<open>i - 1\<close> rounds,
  each rotated left by the amount of round \<open>i - 1\<close>; subkey \<open>i\<close> is PC-2 of the
  concatenated halves after \<open>i + 1\<close> rounds, starting from the halves of PC-1 of the key.
\<close>

definition select :: "int list \<Rightarrow> bool list \<Rightarrow> bool list" where
  "select table s = map (\<lambda>i. s ! nat (i - 1)) table"

definition rotation_amount :: "nat \<Rightarrow> nat" where
  "rotation_amount i = nat (ROTATIONS ! (i mod 16))"

fun spec_halves :: "bool list \<times> bool list \<Rightarrow> nat \<Rightarrow> bool list \<times> bool list" where
  "spec_halves cd 0 = cd"
| "spec_halves cd (Suc i) =
     (rotate (rotation_amount i) (fst (spec_halves cd i)),
      rotate (rotation_amount i) (snd (spec_halves cd i)))"

definition spec_subkey :: "byte list \<Rightarrow> nat \<Rightarrow> bool list" where
  "spec_subkey key i =
     (let pc1_key = select PC_1 (bytes_to_bit_string key);
          cd = spec_halves (take 28 pc1_key, drop 28 pc1_key) (Suc i)
      in select PC_2 (fst cd @ snd cd))"

definition spec_key_schedule :: "byte list \<Rightarrow> nat \<Rightarrow> bool list list" where
  "spec_key_schedule key r = map (spec_subkey key) [0..<r]"

text \<open>The key as \<open>DES.__init__\<close> stores it: cut or filled with zero bytes to 8 bytes.\<close>

definition normal_key :: "byte list \<Rightarrow> byte list" where
  "normal_key key = take 8 key @ replicate (8 - length key) 0"

text \<open>The block primitive on a well-formed engine, without the error cases.\<close>

definition enc :: "engine \<Rightarrow> byte list \<Rightarrow> byte list" where
  "enc e b = join_block (feistel_rounds (des_subkeys e) (split_block b))"

definition dec :: "engine \<Rightarrow> byte list \<Rightarrow> byte list" where
  "dec e b = join_block (feistel_rounds (rev (des_subkeys e)) (split_block b))"

text \<open>The result of \<open>pad\<close> for the block size 8.\<close>

definition padded :: "byte list \<Rightarrow> byte list" where
  "padded d = d @ replicate (8 - length d mod 8) (of_nat (8 - length d mod 8))"

text \<open>
  A mode object over a well-formed engine with the default block size of 64 bits, and
  such a mode object with an initialization vector of 8 bytes.
\<close>

definition ecb_ok :: "mode \<Rightarrow> engine \<Rightarrow> bool" where
  "ecb_ok m e \<longleftrightarrow> mode_des m = Some e \<and> wf_engine e \<and> mode_block_size_bytes m = 8"

definition iv_ok :: "mode \<Rightarrow> engine \<Rightarrow> byte list \<Rightarrow> bool" where
  "iv_ok m e iv \<longleftrightarrow> ecb_ok m e \<and> mode_iv m = Some iv \<and> length iv = 8"

text \<open>
  The key streams of OFB and CTR on a well-formed engine: OFB encrypts the previous
  output block again, CTR encrypts the 8-byte big-endian form of the running counter.
\<close>

fun ofb_stream :: "engine \<Rightarrow> byte list \<Rightarrow> nat \<Rightarrow> byte list list" where
  "ofb_stream e fb 0 = []"
| "ofb_stream e fb (Suc n) = enc e fb # ofb_stream e (enc e fb) n"

definition bytes8 :: "nat \<Rightarrow> byte list" where
  "bytes8 n = map (\<lambda>k. of_nat (n div 256 ^ (7 - k))) [0..<8]"

fun ctr_stream :: "engine \<Rightarrow> nat \<Rightarrow> nat \<Rightarrow> byte list list" where
  "ctr_stream e v 0 = []"
| "ctr_stream e v (Suc n) = enc e (bytes8 v) # ctr_stream e (Suc v) n"


section \<open>Bit strings and slicing\<close>

declare bin_digits.simps [simp del]

lemma bits_val_Nil [simp]: "bits_val [] = 0"
  by (simp add: bits_val_def)

lemma bits_val_snoc [simp]: "bits_val (s @ [b]) = 2 * bits_val s + (if b then 1 else 0)"
  by (simp add: bits_val_def)

lemma bits_val_lt: "bits_val s < 2 ^ length s"
  by (induction s rule: rev_induct) auto

lemma bits_val_replicate_False [simp]: "bits_val (replicate n False) = 0"
  by (induction n) (simp_all add: bits_val_def)

lemma bits_val_append: "bits_val (s @ t) = bits_val s * 2 ^ length t + bits_val t"
  by (induction t rule: rev_induct) (simp_all add: append_assoc [symmetric] algebra_simps del: append_assoc)

lemma bits_val_bin_digits [simp]: "bits_val (bin_digits n) = n"
proof (induction n rule: bin_digits.induct)
  case (1 n)
  show ?case
  proof (cases "n < 2")
    case True
    then have "n = 0 \<or> n = 1" by auto
    then show ?thesis
      by (auto simp: bin_digits.simps [of 0] bin_digits.simps [of "Suc 0"] bits_val_def)
  next
    case False
    with 1 show ?thesis
      by (subst bin_digits.simps) (auto elim: oddE)
  qed
qed

lemma bits_val_format_bin [simp]: "bits_val (format_bin w n) = n"
  by (simp add: format_bin_def bits_val_append)

lemma length_bin_digits_le: "0 < w \<Longrightarrow> n < 2 ^ w \<Longrightarrow> length (bin_digits n) \<le> w"
proof (induction n arbitrary: w rule: bin_digits.induct)
  case (1 n)
  show ?case
  proof (cases "n < 2")
    case True
    with 1(2) show ?thesis by (simp add: bin_digits.simps [of n])
  next
    case False
    then obtain v where w: "w = Suc v" using 1(2) by (cases w) auto
    with False 1(3) have v: "0 < v" by (cases v) auto
    from 1(3) w have "n div 2 < 2 ^ v" by auto
    with 1(1) [OF False v] have "length (bin_digits (n div 2)) \<le> v" .
    with False w show ?thesis by (simp add: bin_digits.simps [of n])
  qed
qed

lemma length_format_bin: "0 < w \<Longrightarrow> n < 2 ^ w \<Longrightarrow> length (format_bin w n) = w"
  using length_bin_digits_le [of w n] by (simp add: format_bin_def)

lemma bits_val_inj: "length s = length t \<Longrightarrow> bits_val s = bits_val t \<Longrightarrow> s = t"
proof (induction s t rule: rev_induct2)
  case (4 x xs y ys)
  from 4(3) have "2 * bits_val xs + (if x then 1 else 0) = 2 * bits_val ys + (if y then 1 else 0)"
    by simp
  then have "x = y" "bits_val xs = bits_val ys"
    by (auto split: if_splits) presburger+
  with 4 show ?case by simp
qed simp_all

lemma format_bin_bits_val: "s \<noteq> [] \<Longrightarrow> format_bin (length s) (bits_val s) = s"
  by (rule bits_val_inj) (simp_all add: length_format_bin bits_val_lt)

lemma bits_val_xor:
  "length s = length t \<Longrightarrow> bits_val s XOR bits_val t = bits_val (map2 (\<noteq>) s t)"
proof (induction s t rule: rev_induct2)
  case (4 x xs y ys)
  then have l: "length xs = length ys" by simp
  have "(2 * bits_val xs + (if x then 1 else 0)) XOR (2 * bits_val ys + (if y then 1 else 0))
        = 2 * (bits_val xs XOR bits_val ys) + (if x \<noteq> y then 1 else 0)"
    by (subst xor_rec) simp
  with 4 l show ?case by simp
qed simp_all

lemma format_bin_xor:
  assumes "length s = w" "length t = w" "0 < w"
  shows "format_bin w (bits_val s XOR bits_val t) = map2 (\<noteq>) s t"
proof -
  have "map2 (\<noteq>) s t \<noteq> []" using assms by (cases s; cases t) auto
  from format_bin_bits_val [OF this] show ?thesis
    using assms by (simp add: bits_val_xor)
qed

lemma map2_xor_cancel: "length s = length t \<Longrightarrow> map2 (\<noteq>) (map2 (\<noteq>) s t) t = s"
  by (induction s t rule: list_induct2) auto

declare chunks.simps [simp del]

lemma range_step_chunks:
  "0 < n \<Longrightarrow> map (\<lambda>i. py_slice xs i (i + n)) (range_step (length xs) n) = chunks n xs"
proof (induction n xs rule: chunks.induct)
  case (1 n xs)
  show ?case
  proof (cases "xs = []")
    case True
    then show ?thesis using 1(2) by (simp add: chunks.simps range_step_def)
  next
    case False
    let ?L = "length xs"
    have cnt: "(?L + n - 1) div n = Suc ((?L - n + n - 1) div n)"
    proof (cases "n \<le> ?L")
      case True
      then have "?L + n - 1 = (?L - n + n - 1) + n" using 1(2) by simp
      then have "(?L + n - 1) div n = ((?L - n + n - 1) + n) div n" by (rule arg_cong)
      also have "\<dots> = Suc ((?L - n + n - 1) div n)"
        using 1(2) by (simp only: div_add_self2)
      finally show ?thesis .
    next
      case False
      from \<open>xs \<noteq> []\<close> obtain m where "?L = Suc m" by (cases xs) auto
      with False 1(2) have "(?L + n - 1) div n = 1"
        by (intro div_nat_eqI) simp_all
      moreover from False have "(?L - n + n - 1) div n = 0" using 1(2) by simp
      ultimately show ?thesis by simp
    qed
    have sl: "py_slice xs (n + a) (n + a + n) = py_slice (drop n xs) a (a + n)" for a
      by (simp add: py_slice_def take_drop ac_simps)
    have "map (\<lambda>i. py_slice xs i (i + n)) (range_step ?L n)
          = py_slice xs 0 n # map (\<lambda>i. py_slice (drop n xs) i (i + n)) (range_step (?L - n) n)"
      unfolding range_step_def cnt
      by (simp add: upt_conv_Cons map_Suc_upt [symmetric] sl o_def del: upt_Suc)
    also have "py_slice xs 0 n = take n xs" by (simp add: py_slice_def)
    also have "map (\<lambda>i. py_slice (drop n xs) i (i + n)) (range_step (?L - n) n) = chunks n (drop n xs)"
      using 1(1) [OF _ 1(2)] False 1(2) by simp
    finally show ?thesis using False 1(2) by (simp add: chunks.simps [of n xs])
  qed
qed

lemma concat_chunks: "0 < n \<Longrightarrow> concat (chunks n xs) = xs"
  by (induction n xs rule: chunks.induct) (subst chunks.simps, simp)

lemma chunks_Nil [simp]: "chunks n [] = []"
  by (simp add: chunks.simps)

lemma chunks_append:
  "0 < n \<Longrightarrow> length x = n \<Longrightarrow> chunks n (x @ xs) = x # chunks n xs"
  by (subst chunks.simps) auto

lemma chunks_concat:
  "0 < n \<Longrightarrow> \<forall>x\<in>set xss. length x = n \<Longrightarrow> chunks n (concat xss) = xss"
  by (induction xss) (simp_all add: chunks_append)

lemma chunks_unfold:
  "0 < n \<Longrightarrow> xs \<noteq> [] \<Longrightarrow> chunks n xs = take n xs # chunks n (drop n xs)"
  by (subst chunks.simps) simp

lemma chunks_length:
  "0 < n \<Longrightarrow> n dvd length xs \<Longrightarrow> \<forall>x\<in>set (chunks n xs). length x = n"
proof (induction n xs rule: chunks.induct)
  case (1 n xs)
  show ?case
  proof (cases "xs = []")
    case True
    then show ?thesis by simp
  next
    case False
    then have "0 < length xs" by simp
    with 1(3) have le: "n \<le> length xs" by (rule dvd_imp_le)
    have "n dvd length xs - n" using 1(3) by (rule dvd_diff_nat) (rule dvd_refl)
    then have d: "n dvd length (drop n xs)" by (simp only: length_drop)
    from False 1(2) have c: "\<not> (n = 0 \<or> xs = [])" by simp
    have ih: "\<forall>x\<in>set (chunks n (drop n xs)). length x = n"
      by (rule 1(1) [OF c 1(2) d])
    show ?thesis
    proof
      fix x assume "x \<in> set (chunks n xs)"
      then have "x = take n xs \<or> x \<in> set (chunks n (drop n xs))"
        by (simp only: chunks_unfold [OF 1(2) False] set_simps insert_iff)
      then show "length x = n"
      proof
        assume "x = take n xs"
        with le show ?thesis by simp
      next
        assume "x \<in> set (chunks n (drop n xs))"
        with ih show ?thesis by blast
      qed
    qed
  qed
qed

lemma length_chunks:
  "0 < n \<Longrightarrow> n dvd length xs \<Longrightarrow> length (chunks n xs) = length xs div n"
proof (induction n xs rule: chunks.induct)
  case (1 n xs)
  show ?case
  proof (cases "xs = []")
    case True
    then show ?thesis by simp
  next
    case False
    then have "0 < length xs" by simp
    with 1(3) have le: "n \<le> length xs" by (rule dvd_imp_le)
    have "n dvd length xs - n" using 1(3) by (rule dvd_diff_nat) (rule dvd_refl)
    then have d: "n dvd length (drop n xs)" by (simp only: length_drop)
    from False 1(2) have c: "\<not> (n = 0 \<or> xs = [])" by simp
    have "length (chunks n (drop n xs)) = length (drop n xs) div n"
      by (rule 1(1) [OF c 1(2) d])
    then have "length (chunks n xs) = Suc ((length xs - n) div n)"
      by (simp only: chunks_unfold [OF 1(2) False] list.size length_drop)
    also have "\<dots> = length xs div n"
      using le 1(2) by (simp add: le_div_geq)
    finally show ?thesis .
  qed
qed


section \<open>Properties of padding\<close>

lemma pad_8: "pad d 8 = Inr (d @ replicate (8 - length d mod 8) (of_nat (8 - length d mod 8)))"
proof -
  have m: "int (length d) mod 8 = int (length d mod 8)"
    by (simp add: zmod_int)
  have lt: "length d mod 8 < 8" by simp
  have n: "nat (8 - int (length d mod 8)) = 8 - length d mod 8"
    using lt by linarith
  have "8 - int (length d mod 8) = int (8 - length d mod 8)"
    using lt by linarith
  then have w: "(word_of_int (8 - int (length d mod 8)) :: byte) = of_nat (8 - length d mod 8)"
    by simp
  show ?thesis
    unfolding pad_def Let_def m using lt n w by auto
qed


lemma unat_small_byte: "n < 256 \<Longrightarrow> unat (of_nat n :: byte) = n"
  by (simp add: unat_of_nat)

lemma unpad_append_replicate:
  assumes "1 \<le> k" "k \<le> 8"
  shows "unpad (d @ replicate k (of_nat k)) 8 = d"
proof -
  from assms obtain j where k: "k = Suc j" by (cases k) simp_all
  have u: "uint (of_nat k :: byte) = int k"
    using assms unat_small_byte [of k] by (simp add: uint_nat)
  have l: "last (d @ replicate k (of_nat k :: byte)) = of_nat k"
    unfolding k by simp
  have ne: "d @ replicate k (of_nat k :: byte) \<noteq> []"
    unfolding k by simp
  have c: "\<not> (int k < 1 \<or> int k > 8 \<or> int k > int (length (d @ replicate k (of_nat k :: byte))))"
    using assms by simp
  have t: "take (length (d @ replicate k (of_nat k :: byte)) - nat (int k))
             (d @ replicate k (of_nat k :: byte)) = d"
    by simp
  show ?thesis
    unfolding unpad_def Let_def l u using ne c t by (simp only: if_False)
qed

lemma unpad_pad_8:
  "unpad (d @ replicate (8 - length d mod 8) (of_nat (8 - length d mod 8))) 8 = d"
proof -
  have "length d mod 8 < 8" by simp
  then have "1 \<le> 8 - length d mod 8" "8 - length d mod 8 \<le> 8" by simp_all
  then show ?thesis by (rule unpad_append_replicate)
qed

lemma unpad_8_cases:
  "unpad X 8 =
     (if X \<noteq> [] \<and> 1 \<le> unat (last X) \<and> unat (last X) \<le> 8 \<and> unat (last X) \<le> length X
      then take (length X - unat (last X)) X else X)"
proof -
  define n where "n = unat (last X)"
  have u: "uint (last X) = int n" unfolding n_def by (rule uint_nat)
  have "unpad X 8 =
     (if X \<noteq> [] \<and> 1 \<le> n \<and> n \<le> 8 \<and> n \<le> length X then take (length X - n) X else X)"
    unfolding unpad_def Let_def u by auto
  then show ?thesis unfolding n_def .
qed

text \<open>
  Claim C7.  \<open>pad\<close> with the default block size 8 appends \<open>n = 8 - len mod 8\<close> bytes of
  value \<open>n\<close>, with \<open>1 \<le> n \<le> 8\<close> and \<open>n = 8\<close> for a remainder of 0, so the result is
  strictly longer and a multiple of 8; \<open>unpad\<close> removes as many bytes as the last byte
  says when that value is between 1 and 8 and at most the length, and returns the data
  unchanged otherwise; \<open>unpad\<close> undoes \<open>pad\<close>.
\<close>

theorem pad_unpad_spec:
  "(let n = 8 - length D mod 8 in
      pad D 8 = Inr (D @ replicate n (of_nat n)) \<and>
      1 \<le> n \<and> n \<le> 8 \<and> (length D mod 8 = 0 \<longrightarrow> n = 8) \<and>
      length D < length (D @ replicate n (of_nat n :: byte)) \<and>
      length (D @ replicate n (of_nat n :: byte)) mod 8 = 0 \<and>
      unpad (D @ replicate n (of_nat n)) 8 = D) \<and>
   (X \<noteq> [] \<and> 1 \<le> unat (last X) \<and> unat (last X) \<le> 8 \<and> unat (last X) \<le> length X
      \<longrightarrow> unpad X 8 = take (length X - unat (last X)) X) \<and>
   (\<not> (X \<noteq> [] \<and> 1 \<le> unat (last X) \<and> unat (last X) \<le> 8 \<and> unat (last X) \<le> length X)
      \<longrightarrow> unpad X 8 = X)"
proof -
  have lt: "length D mod 8 < 8" by simp
  have a: "length (D @ replicate (8 - length D mod 8) (x :: byte)) mod 8 = 0" for x
  proof -
    have "(length D + (8 - length D mod 8)) mod 8 = 0"
      by presburger
    then show ?thesis by (simp only: length_append length_replicate)
  qed
  have b: "X \<noteq> [] \<and> 1 \<le> unat (last X) \<and> unat (last X) \<le> 8 \<and> unat (last X) \<le> length X
      \<longrightarrow> unpad X 8 = take (length X - unat (last X)) X"
    by (subst unpad_8_cases) simp
  have c: "\<not> (X \<noteq> [] \<and> 1 \<le> unat (last X) \<and> unat (last X) \<le> 8 \<and> unat (last X) \<le> length X)
      \<longrightarrow> unpad X 8 = X"
    by (subst unpad_8_cases) simp
  have d: "1 \<le> 8 - length D mod 8 \<and> 8 - length D mod 8 \<le> 8 \<and>
      (length D mod 8 = 0 \<longrightarrow> 8 - length D mod 8 = 8) \<and>
      length D < length (D @ replicate (8 - length D mod 8) (of_nat (8 - length D mod 8) :: byte))"
    using lt by (simp only: length_append length_replicate) arith
  show ?thesis
    unfolding Let_def
    using pad_8 [of D] unpad_pad_8 [of D] a [of "of_nat (8 - length D mod 8)"] b c d
    by (elim conjE) (intro conjI; assumption)
qed

theorem pad_unpad_spec_witness:
  "pad [1, 2, 3] 8 = Inr ([1, 2, 3] @ replicate 5 5) \<and>
   unpad ([1, 2, 3] @ replicate 5 5) 8 = [1, 2, 3] \<and>
   unpad [7, 2] 8 = [] \<and>
   unpad [7, 9] 8 = [7, 9] \<and>
   unpad [7, 3] 8 = [7, 3]"
  using pad_unpad_spec [of "[1, 2, 3]" "[7, 2]"] pad_unpad_spec [of "[]" "[7, 9]"]
    pad_unpad_spec [of "[]" "[7, 3]"]
  by (simp add: Let_def)


section \<open>The round function and the block primitive\<close>

lemma map_err_Inr:
  "(\<And>x. x \<in> set xs \<Longrightarrow> f x = Inr (g x)) \<Longrightarrow> map_err f xs = Inr (map g xs)"
  by (induction xs) simp_all

lemma map_err_length: "map_err f xs = Inr ys \<Longrightarrow> length ys = length xs"
  by (induction xs arbitrary: ys) (auto split: sum.splits)

lemma permute_Inr:
  assumes "\<forall>i\<in>set table. 1 \<le> i \<and> i \<le> int (length s)"
  shows "permute s table = Inr (map (\<lambda>i. s ! nat (i - 1)) table)"
  unfolding permute_def
proof (rule map_err_Inr)
  fix i assume "i \<in> set table"
  with assms have "1 \<le> i" "i \<le> int (length s)" by auto
  then show "py_getitem s (i - 1) = Inr (s ! nat (i - 1))"
    by (simp add: py_getitem_def)
qed

lemma E_BOX_range: "\<forall>i\<in>set E_BOX. 1 \<le> i \<and> i \<le> 32"
  by (simp add: E_BOX_def)

lemma P_BOX_range: "\<forall>i\<in>set P_BOX. 1 \<le> i \<and> i \<le> 32"
  by (simp add: P_BOX_def)

lemma PC_1_range: "\<forall>i\<in>set PC_1. 1 \<le> i \<and> i \<le> 64"
  by (simp add: PC_1_def)

lemma PC_2_range: "\<forall>i\<in>set PC_2. 1 \<le> i \<and> i \<le> 56"
  by (simp add: PC_2_def)

lemma length_tables [simp]:
  "length E_BOX = 48" "length P_BOX = 32" "length PC_1 = 56" "length PC_2 = 48"
  "length ROTATIONS = 16" "length S_BOXES = 8"
  by (simp_all add: E_BOX_def P_BOX_def PC_1_def PC_2_def ROTATIONS_def S_BOXES_def)

lemma S_BOXES_rows: "\<forall>row\<in>set S_BOXES. length row = 64 \<and> (\<forall>v\<in>set row. v < 16)"
  by (simp add: S_BOXES_def)

lemma S_BOXES_entry:
  assumes "i < 8" "j < 64"
  shows "length (S_BOXES ! i) = 64" "S_BOXES ! i ! j < 16"
proof -
  from assms(1) have "S_BOXES ! i \<in> set S_BOXES" by simp
  with S_BOXES_rows have r: "length (S_BOXES ! i) = 64" "\<forall>v\<in>set (S_BOXES ! i). v < 16"
    by blast+
  from r(1) show "length (S_BOXES ! i) = 64" .
  from r assms(2) show "S_BOXES ! i ! j < 16" by simp
qed

lemma py_int2_Inr: "s \<noteq> [] \<Longrightarrow> py_int2 s = Inr (bits_val s)"
  by (simp add: py_int2_def)

lemma sbox_step:
  assumes xr: "length xr = 48" and i: "i < 8"
  shows "\<exists>v. v < 16 \<and>
           sbox_loop xr (i # is) out = sbox_loop xr is (out @ format_bin 4 v)"
proof -
  define chunk where "chunk = py_slice xr (i * 6) ((i + 1) * 6)"
  have lc: "length chunk = 6"
    using xr i by (simp add: chunk_def py_slice_def)
  define row where "row = bits_val [chunk ! 0, chunk ! 5]"
  define col where "col = bits_val (py_slice chunk 1 5)"
  have "row < 2 ^ length [chunk ! 0, chunk ! 5]" unfolding row_def by (rule bits_val_lt)
  then have row: "row < 4" by simp
  have l4: "length (py_slice chunk 1 5) = 4" using lc by (simp add: py_slice_def)
  have "col < 2 ^ length (py_slice chunk 1 5)" unfolding col_def by (rule bits_val_lt)
  then have col: "col < 16" unfolding l4 by simp
  from row col have idx: "row * 16 + col < 64" by simp
  have r: "py_int2 [chunk ! 0, chunk ! 5] = Inr row"
    by (simp add: py_int2_def row_def)
  have c: "py_int2 (py_slice chunk 1 5) = Inr col"
    using l4 by (subst py_int2_Inr) (auto simp: col_def)
  have len: "\<not> length (S_BOXES ! i) \<le> row * 16 + col"
    using S_BOXES_entry(1) [OF i idx] idx by simp
  have "sbox_loop xr (i # is) out
        = sbox_loop xr is (out @ format_bin 4 (S_BOXES ! i ! (row * 16 + col)))"
    unfolding sbox_loop.simps Let_def chunk_def [symmetric] using lc r c len by simp
  with S_BOXES_entry(2) [OF i idx] show ?thesis by blast
qed

lemma sbox_loop_ok:
  "length xr = 48 \<Longrightarrow> \<forall>i\<in>set is. i < 8 \<Longrightarrow>
   \<exists>out'. sbox_loop xr is out = Inr out' \<and> length out' = length out + 4 * length is"
proof (induction "is" arbitrary: out)
  case Nil
  then show ?case by simp
next
  case (Cons i "is")
  from Cons.prems have i: "i < 8" and rest: "\<forall>j\<in>set is. j < 8" by simp_all
  from sbox_step [OF Cons.prems(1) i, of "is" out] obtain v where v: "v < 16"
    and st: "sbox_loop xr (i # is) out = sbox_loop xr is (out @ format_bin 4 v)" by blast
  from v have "length (format_bin 4 v) = 4" by (intro length_format_bin) simp_all
  with Cons.IH [OF Cons.prems(1) rest, of "out @ format_bin 4 v"] st
  show ?case by auto
qed

lemma feistel_function_ok:
  assumes R: "length R = 32" and K: "length K = 48"
  shows "\<exists>y. feistel_function R K = Inr y \<and> length y = 32"
proof -
  define x where "x = map (\<lambda>i. R ! nat (i - 1)) E_BOX"
  have px: "permute R E_BOX = Inr x"
    unfolding x_def using E_BOX_range R by (intro permute_Inr) simp
  have lx: "length x = 48" by (simp add: x_def)
  then have ix: "py_int2 x = Inr (bits_val x)" by (intro py_int2_Inr) auto
  from K have iK: "py_int2 K = Inr (bits_val K)" by (intro py_int2_Inr) auto
  define xr where "xr = map2 (\<noteq>) x K"
  have fx: "format_bin 48 (bits_val x XOR bits_val K) = xr"
    unfolding xr_def using lx K by (intro format_bin_xor) simp_all
  have lxr: "length xr = 48" using lx K by (simp add: xr_def)
  from sbox_loop_ok [OF lxr, of "[0..<8]" "[]"]
  obtain out where out: "sbox_loop xr [0..<8] [] = Inr out" "length out = 32"
    by auto
  define y where "y = map (\<lambda>i. out ! nat (i - 1)) P_BOX"
  have py: "permute out P_BOX = Inr y"
    unfolding y_def using P_BOX_range out(2) by (intro permute_Inr) simp
  have "feistel_function R K = Inr y"
    unfolding feistel_function_def by (simp add: px ix iK fx lxr out(1) py Let_def)
  moreover have "length y = 32" by (simp add: y_def)
  ultimately show ?thesis by blast
qed

lemma format_bin_xor_bits:
  "length s = w \<Longrightarrow> length t = w \<Longrightarrow> 0 < w \<Longrightarrow>
   format_bin w (bits_val s XOR bits_val t) = xor_bits s t"
  unfolding xor_bits_def by (rule format_bin_xor)

lemma length_xor_bits [simp]: "length (xor_bits s t) = min (length s) (length t)"
  by (simp add: xor_bits_def)

lemma xor_bits_cancel: "length s = length t \<Longrightarrow> xor_bits (xor_bits s t) t = s"
  unfolding xor_bits_def by (rule map2_xor_cancel)

lemma round_fn_ok:
  assumes "length R = 32" "length K = 48"
  shows "feistel_function R K = Inr (round_fn R K)" "length (round_fn R K) = 32"
  using feistel_function_ok [OF assms] by (auto simp: round_fn_def)

lemma rounds_loop_append:
  "rounds_loop keys (is @ js) L R =
     (case rounds_loop keys is L R of Inl e \<Rightarrow> Inl e | Inr (L', R') \<Rightarrow> rounds_loop keys js L' R')"
  by (induction "is" arbitrary: L R) (auto split: sum.splits)

lemma rounds_loop_single:
  assumes "i < length keys" "length (keys ! i) = 48" "length L = 32" "length R = 32"
  shows "rounds_loop keys [i] L R = Inr (feistel_step (L, R) (keys ! i))"
proof -
  have g: "py_getitem keys (int i) = Inr (keys ! i)"
    using assms(1) by (simp add: py_getitem_def)
  note f = round_fn_ok [OF assms(4) assms(2)]
  have a: "py_int2 L = Inr (bits_val L)" using assms(3) by (intro py_int2_Inr) auto
  have b: "py_int2 (round_fn R (keys ! i)) = Inr (bits_val (round_fn R (keys ! i)))"
    using f(2) by (intro py_int2_Inr) auto
  have x: "format_bin 32 (bits_val L XOR bits_val (round_fn R (keys ! i)))
           = xor_bits L (round_fn R (keys ! i))"
    using assms(3) f(2) by (intro format_bin_xor_bits) simp_all
  show ?thesis by (simp add: g f(1) a b x)
qed

lemma feistel_step_halves:
  "halves_ok s \<Longrightarrow> length k = 48 \<Longrightarrow> halves_ok (feistel_step s k)"
  by (cases s) (simp add: halves_ok_def round_fn_ok)

lemma feistel_rounds_halves:
  "halves_ok s \<Longrightarrow> list_all (\<lambda>k. length k = 48) ks \<Longrightarrow> halves_ok (feistel_rounds ks s)"
  unfolding feistel_rounds_def
  by (induction ks arbitrary: s) (simp_all add: feistel_step_halves)

lemma rounds_loop_upt:
  assumes ks: "list_all (\<lambda>k. length k = 48) keys" and s: "halves_ok (L, R)"
  shows "n \<le> length keys \<Longrightarrow>
         rounds_loop keys [0..<n] L R = Inr (feistel_rounds (take n keys) (L, R))"
proof (induction n)
  case 0
  show ?case by (simp add: feistel_rounds_def)
next
  case (Suc n)
  then have n: "n < length keys" by simp
  define st where "st = feistel_rounds (take n keys) (L, R)"
  have ih: "rounds_loop keys [0..<n] L R = Inr st" using Suc by (simp add: st_def)
  have "list_all (\<lambda>k. length k = 48) (take n keys)"
    using ks by (auto simp: list_all_iff dest: in_set_takeD)
  with s have h: "halves_ok st" unfolding st_def by (intro feistel_rounds_halves)
  from ks n have k: "length (keys ! n) = 48" by (simp add: list_all_length)
  obtain L' R' where st': "st = (L', R')" by (cases st)
  with h have l: "length L' = 32" "length R' = 32" by (simp_all add: halves_ok_def)
  have "rounds_loop keys [0..<Suc n] L R = rounds_loop keys [n] L' R'"
    by (simp add: rounds_loop_append ih st' del: rounds_loop.simps)
  also have "\<dots> = Inr (feistel_step st (keys ! n))"
    unfolding st' by (rule rounds_loop_single [OF n k l])
  also have "feistel_step st (keys ! n) = feistel_rounds (take (Suc n) keys) (L, R)"
    using n by (simp add: st_def feistel_rounds_def take_Suc_conv_app_nth)
  finally show ?case .
qed

lemma feistel_step_swap:
  assumes "halves_ok s" "length k = 48"
  shows "feistel_step (prod.swap (feistel_step s k)) k = prod.swap s"
proof -
  obtain L R where s: "s = (L, R)" by (cases s)
  with assms have l: "length L = 32" "length R = 32" by (simp_all add: halves_ok_def)
  have "length (round_fn R k) = 32" using l(2) assms(2) by (rule round_fn_ok)
  with l(1) have "xor_bits (xor_bits L (round_fn R k)) (round_fn R k) = L"
    by (intro xor_bits_cancel) simp
  then show ?thesis by (simp add: s)
qed

lemma feistel_rounds_inverse:
  "halves_ok s \<Longrightarrow> list_all (\<lambda>k. length k = 48) ks \<Longrightarrow>
   feistel_rounds (rev ks) (prod.swap (feistel_rounds ks s)) = prod.swap s"
proof (induction ks arbitrary: s)
  case Nil
  show ?case by (simp add: feistel_rounds_def)
next
  case (Cons k ks)
  from Cons.prems have k: "length k = 48" and ks: "list_all (\<lambda>k. length k = 48) ks" by simp_all
  have h: "halves_ok (feistel_step s k)" using Cons.prems(1) k by (rule feistel_step_halves)
  have "feistel_rounds (rev (k # ks)) (prod.swap (feistel_rounds (k # ks) s))
        = feistel_step (feistel_rounds (rev ks) (prod.swap (feistel_rounds ks (feistel_step s k)))) k"
    by (simp add: feistel_rounds_def)
  also have "\<dots> = feistel_step (prod.swap (feistel_step s k)) k"
    by (simp only: Cons.IH [OF h ks])
  also have "\<dots> = prod.swap s" using Cons.prems(1) k by (rule feistel_step_swap)
  finally show ?case .
qed

lemma map_err_map: "map_err f (map g xs) = map_err (\<lambda>x. f (g x)) xs"
  by (induction xs) (simp_all split: sum.splits)

lemma length_format_bin_byte: "length (format_bin 8 (unat (b :: byte))) = 8"
proof -
  have "unat b < 2 ^ 8" using unsigned_less [of b, where 'a = nat] by simp
  then show ?thesis by (intro length_format_bin) simp_all
qed

lemma length_bytes_to_bit_string: "length (bytes_to_bit_string d) = 8 * length d"
  by (induction d) (simp_all add: bytes_to_bit_string_def length_format_bin_byte)

lemma chunks_bytes_to_bit_string:
  "chunks 8 (bytes_to_bit_string d) = map (\<lambda>b. format_bin 8 (unat b)) d"
  unfolding bytes_to_bit_string_def
  by (rule chunks_concat) (simp_all add: length_format_bin_byte)

lemma bits_to_bytes_inverse: "bits_to_bytes (bytes_to_bit_string d) = d"
  by (simp add: bits_to_bytes_def chunks_bytes_to_bit_string o_def map_idI)

lemma byte_of_bits:
  assumes "length c = 8"
  shows "err_bind (py_int2 c) byte_of_nat = Inr (of_nat (bits_val c))"
    and "unat (of_nat (bits_val c) :: byte) = bits_val c"
proof -
  have "bits_val c < 2 ^ length c" by (rule bits_val_lt)
  then have lt: "bits_val c < 256" by (simp add: assms)
  from assms have "c \<noteq> []" by auto
  then show "err_bind (py_int2 c) byte_of_nat = Inr (of_nat (bits_val c))"
    using lt by (simp add: py_int2_Inr err_bind_def byte_of_nat_def)
  from lt show "unat (of_nat (bits_val c) :: byte) = bits_val c"
    by (rule unat_small_byte)
qed

lemma bit_string_to_bytes_Inr:
  assumes "8 dvd length s"
  shows "bit_string_to_bytes s = Inr (bits_to_bytes s)"
proof -
  from assms have m: "length s mod 8 = 0" by auto
  have l: "\<forall>c\<in>set (chunks 8 s). length c = 8"
    using assms by (intro chunks_length) simp_all
  have "bit_string_to_bytes s
        = map_err (\<lambda>c. err_bind (py_int2 c) byte_of_nat)
            (map (\<lambda>i. py_slice s i (i + 8)) (range_step (length s) 8))"
    unfolding bit_string_to_bytes_def Let_def by (simp add: m map_err_map)
  also have "map (\<lambda>i. py_slice s i (i + 8)) (range_step (length s) 8) = chunks 8 s"
    by (rule range_step_chunks) simp
  also have "map_err (\<lambda>c. err_bind (py_int2 c) byte_of_nat) (chunks 8 s)
             = Inr (map (\<lambda>c. of_nat (bits_val c)) (chunks 8 s))"
    using l by (intro map_err_Inr byte_of_bits(1)) simp
  finally show ?thesis by (simp add: bits_to_bytes_def)
qed

lemma bytes_to_bit_string_inverse:
  assumes "8 dvd length s"
  shows "bytes_to_bit_string (bits_to_bytes s) = s"
proof -
  have l: "\<forall>c\<in>set (chunks 8 s). length c = 8"
    using assms by (intro chunks_length) simp_all
  have "map (\<lambda>c. format_bin 8 (unat (of_nat (bits_val c) :: byte))) (chunks 8 s) = chunks 8 s"
  proof (rule map_idI)
    fix c assume "c \<in> set (chunks 8 s)"
    with l have c: "length c = 8" by blast
    then have "c \<noteq> []" by auto
    from format_bin_bits_val [OF this] c byte_of_bits(2) [OF c]
    show "format_bin 8 (unat (of_nat (bits_val c) :: byte)) = c" by simp
  qed
  then have "bytes_to_bit_string (bits_to_bytes s) = concat (chunks 8 s)"
    by (simp add: bytes_to_bit_string_def bits_to_bytes_def o_def)
  then show ?thesis by (simp add: concat_chunks)
qed

lemma length_bits_to_bytes: "8 dvd length s \<Longrightarrow> length (bits_to_bytes s) = length s div 8"
  by (simp add: bits_to_bytes_def length_chunks)

lemma split_block_halves: "length b = 8 \<Longrightarrow> halves_ok (split_block b)"
  by (simp add: halves_ok_def split_block_def length_bytes_to_bit_string)

lemma split_join_block:
  assumes "halves_ok s"
  shows "split_block (join_block s) = prod.swap s" "length (join_block s) = 8"
proof -
  obtain L R where s: "s = (L, R)" by (cases s)
  with assms have l: "length L = 32" "length R = 32" by (simp_all add: halves_ok_def)
  then have d: "8 dvd length (R @ L)" by simp
  from bytes_to_bit_string_inverse [OF d] l
  show "split_block (join_block s) = prod.swap s"
    by (simp add: split_block_def join_block_def s)
  from length_bits_to_bytes [OF d] l show "length (join_block s) = 8"
    by (simp add: join_block_def s)
qed

lemma join_split_block:
  "length b = 8 \<Longrightarrow> join_block (prod.swap (split_block b)) = b"
  by (simp add: join_block_def split_block_def bits_to_bytes_inverse)

lemma process_block_wf:
  assumes wf: "wf_engine e" and b: "length b = 8"
  shows "process_block e b d =
           Inr (join_block (feistel_rounds (if d then rev (des_subkeys e) else des_subkeys e)
                  (split_block b)))"
proof -
  define keys where "keys = (if d then rev (des_subkeys e) else des_subkeys e)"
  from wf have lk: "length keys = nat (des_rounds e)"
    and ak: "list_all (\<lambda>k. length k = 48) keys"
    by (simp_all add: wf_engine_def keys_def list_all_iff)
  define L where "L = take 32 (bytes_to_bit_string b)"
  define R where "R = drop 32 (bytes_to_bit_string b)"
  have sb: "split_block b = (L, R)" by (simp add: split_block_def L_def R_def)
  with split_block_halves [OF b] have h: "halves_ok (L, R)" by simp
  have rl: "rounds_loop keys [0..<nat (des_rounds e)] L R = Inr (feistel_rounds keys (L, R))"
    using rounds_loop_upt [OF ak h, of "nat (des_rounds e)"] lk by simp
  obtain L' R' where st: "feistel_rounds keys (L, R) = (L', R')"
    by (cases "feistel_rounds keys (L, R)")
  from feistel_rounds_halves [OF h ak] st have l: "length L' = 32" "length R' = 32"
    by (simp_all add: halves_ok_def)
  then have "8 dvd length (R' @ L')" by simp
  then have bs: "bit_string_to_bytes (R' @ L') = Inr (bits_to_bytes (R' @ L'))"
    by (rule bit_string_to_bytes_Inr)
  have "process_block e b d = Inr (bits_to_bytes (R' @ L'))"
    unfolding process_block_def Let_def keys_def [symmetric] L_def [symmetric] R_def [symmetric]
    using b by (simp add: rl st bs)
  then show ?thesis
    by (simp add: keys_def [symmetric] sb st join_block_def)
qed


section \<open>The key schedule\<close>

lemma permute_select:
  "\<forall>i\<in>set table. 1 \<le> i \<and> i \<le> int (length s) \<Longrightarrow> permute s table = Inr (select table s)"
  unfolding select_def by (rule permute_Inr)

lemma length_select [simp]: "length (select table s) = length table"
  by (simp add: select_def)

lemma rotate_left_Inr:
  assumes "s \<noteq> []" "0 \<le> n"
  shows "rotate_left s n = Inr (rotate (nat n) s)"
proof -
  have "nat (n mod int (length s)) = nat n mod length s"
    using assms by (simp add: nat_mod_distrib)
  then show ?thesis
    using assms(1) by (simp add: rotate_left_def Let_def rotate_drop_take)
qed

lemma ROTATIONS_lookup:
  "py_getitem ROTATIONS (int i mod int (length ROTATIONS)) = Inr (ROTATIONS ! (i mod 16))"
proof -
  have "int i mod 16 = int (i mod 16)" by (simp add: zmod_int)
  then show ?thesis by (simp add: py_getitem_def)
qed

lemma ROTATIONS_nonneg: "\<forall>r\<in>set ROTATIONS. 0 \<le> r"
  by (simp add: ROTATIONS_def)

lemma ROTATIONS_nth_nonneg: "0 \<le> ROTATIONS ! (i mod 16)"
proof -
  have "ROTATIONS ! (i mod 16) \<in> set ROTATIONS" by simp
  with ROTATIONS_nonneg show ?thesis by blast
qed

lemma spec_halves_length:
  "length (fst cd) = 28 \<Longrightarrow> length (snd cd) = 28 \<Longrightarrow>
   length (fst (spec_halves cd i)) = 28 \<and> length (snd (spec_halves cd i)) = 28"
  by (induction i) simp_all

lemma subkeys_loop_step:
  assumes "length C = 28" "length D = 28"
  shows "subkeys_loop (i # is) C D =
           (case subkeys_loop is (rotate (rotation_amount i) C) (rotate (rotation_amount i) D) of
              Inl e \<Rightarrow> Inl e
            | Inr ks \<Rightarrow>
                Inr (select PC_2 (rotate (rotation_amount i) C @ rotate (rotation_amount i) D) # ks))"
proof -
  from assms have ne: "C \<noteq> []" "D \<noteq> []" by auto
  have rc: "rotate_left C (ROTATIONS ! (i mod 16)) = Inr (rotate (rotation_amount i) C)"
    unfolding rotation_amount_def using ne(1) ROTATIONS_nth_nonneg by (rule rotate_left_Inr)
  have rd: "rotate_left D (ROTATIONS ! (i mod 16)) = Inr (rotate (rotation_amount i) D)"
    unfolding rotation_amount_def using ne(2) ROTATIONS_nth_nonneg by (rule rotate_left_Inr)
  have p: "permute (rotate (rotation_amount i) C @ rotate (rotation_amount i) D) PC_2
           = Inr (select PC_2 (rotate (rotation_amount i) C @ rotate (rotation_amount i) D))"
    using PC_2_range assms by (intro permute_select) simp
  show ?thesis
    by (simp only: subkeys_loop.simps ROTATIONS_lookup rc rd p sum.case)
qed

lemma subkeys_loop_upt:
  assumes "length (fst cd) = 28" "length (snd cd) = 28"
  shows "subkeys_loop [a..<a + n] (fst (spec_halves cd a)) (snd (spec_halves cd a))
         = Inr (map (\<lambda>i. select PC_2 (fst (spec_halves cd (Suc i)) @ snd (spec_halves cd (Suc i))))
                  [a..<a + n])"
proof (induction n arbitrary: a)
  case 0
  show ?case by simp
next
  case (Suc n)
  have u: "[a..<a + Suc n] = a # [Suc a..<Suc a + n]"
    by (simp add: upt_conv_Cons)
  from spec_halves_length [OF assms, of a]
  have l: "length (fst (spec_halves cd a)) = 28" "length (snd (spec_halves cd a)) = 28"
    by simp_all
  show ?case
    unfolding u subkeys_loop_step [OF l]
    using Suc.IH [of "Suc a"] by simp
qed

lemma generate_subkeys_spec:
  assumes "length key = 8"
  shows "generate_subkeys key r = Inr (spec_key_schedule key (nat r))"
proof -
  define pc1 where "pc1 = select PC_1 (bytes_to_bit_string key)"
  have p: "permute (bytes_to_bit_string key) PC_1 = Inr pc1"
    unfolding pc1_def using PC_1_range assms
    by (intro permute_select) (simp add: length_bytes_to_bit_string)
  have l: "length (fst (take 28 pc1, drop 28 pc1)) = 28" "length (snd (take 28 pc1, drop 28 pc1)) = 28"
    by (simp_all add: pc1_def)
  from subkeys_loop_upt [OF l, of 0 "nat r"]
  have "subkeys_loop [0..<nat r] (take 28 pc1) (drop 28 pc1)
        = Inr (map (\<lambda>i. select PC_2 (fst (spec_halves (take 28 pc1, drop 28 pc1) (Suc i)) @
                                       snd (spec_halves (take 28 pc1, drop 28 pc1) (Suc i))))
                 [0..<nat r])"
    by simp
  then show ?thesis
    unfolding generate_subkeys_def Let_def p
    by (simp add: spec_key_schedule_def spec_subkey_def Let_def pc1_def del: spec_halves.simps)
qed

lemma length_spec_subkey [simp]: "length (spec_subkey key i) = 48"
  by (simp add: spec_subkey_def Let_def del: spec_halves.simps)

lemma length_spec_key_schedule [simp]: "length (spec_key_schedule key r) = r"
  by (simp add: spec_key_schedule_def)

lemma normal_key_eq:
  "(if length key < 8 then ljust key 8 0 else if length key > 8 then take 8 key else key)
   = normal_key key"
  by (simp add: normal_key_def ljust_def)

lemma length_normal_key [simp]: "length (normal_key key) = 8"
  by (simp add: normal_key_def)

lemma DES_init_Inr:
  "DES_init key bs r kl iv =
     Inr \<lparr>des_block_size = bs, des_rounds = r, des_keylen = kl, des_iv = iv,
          des_key = normal_key key,
          des_subkeys = spec_key_schedule (normal_key key) (nat r)\<rparr>"
  unfolding DES_init_def normal_key_eq Let_def
  by (simp add: generate_subkeys_spec)

lemma DES_init_wf: "DES_init key bs r kl iv = Inr e \<Longrightarrow> wf_engine e"
  unfolding DES_init_Inr
  by (auto simp: wf_engine_def list_all_iff spec_key_schedule_def)


section \<open>Encrypting and decrypting one block\<close>

lemma encrypt_block_wf:
  assumes "wf_engine e" "length b = 8"
  shows "encrypt_block e b = Inr (enc e b)"
  unfolding encrypt_block_def enc_def using process_block_wf [OF assms, of False] by simp

lemma decrypt_block_wf:
  assumes "wf_engine e" "length b = 8"
  shows "decrypt_block e b = Inr (dec e b)"
  unfolding decrypt_block_def dec_def using process_block_wf [OF assms, of True] by simp

lemma wf_engine_keys:
  "wf_engine e \<Longrightarrow> list_all (\<lambda>k. length k = 48) (des_subkeys e)"
  "wf_engine e \<Longrightarrow> list_all (\<lambda>k. length k = 48) (rev (des_subkeys e))"
  by (simp_all add: wf_engine_def list_all_iff)

lemma length_enc:
  assumes "wf_engine e" "length b = 8"
  shows "length (enc e b) = 8"
  unfolding enc_def
  by (intro split_join_block(2) feistel_rounds_halves split_block_halves wf_engine_keys assms)

lemma length_dec:
  assumes "wf_engine e" "length b = 8"
  shows "length (dec e b) = 8"
  unfolding dec_def
  by (intro split_join_block(2) feistel_rounds_halves split_block_halves wf_engine_keys assms)

lemma dec_enc:
  assumes wf: "wf_engine e" and b: "length b = 8"
  shows "dec e (enc e b) = b"
proof -
  define st where "st = feistel_rounds (des_subkeys e) (split_block b)"
  have h0: "halves_ok (split_block b)" using b by (rule split_block_halves)
  have ks: "list_all (\<lambda>k. length k = 48) (des_subkeys e)" using wf by (rule wf_engine_keys)
  have h: "halves_ok st" unfolding st_def using h0 ks by (rule feistel_rounds_halves)
  have "dec e (enc e b) = join_block (feistel_rounds (rev (des_subkeys e)) (prod.swap st))"
    by (simp add: dec_def enc_def st_def [symmetric] split_join_block(1) [OF h])
  also have "\<dots> = join_block (prod.swap (split_block b))"
    unfolding st_def by (simp only: feistel_rounds_inverse [OF h0 ks])
  also have "\<dots> = b" using b by (rule join_split_block)
  finally show ?thesis .
qed

lemma enc_dec:
  assumes wf: "wf_engine e" and b: "length b = 8"
  shows "enc e (dec e b) = b"
proof -
  define st where "st = feistel_rounds (rev (des_subkeys e)) (split_block b)"
  have h0: "halves_ok (split_block b)" using b by (rule split_block_halves)
  have ks: "list_all (\<lambda>k. length k = 48) (rev (des_subkeys e))" using wf by (rule wf_engine_keys)
  have h: "halves_ok st" unfolding st_def using h0 ks by (rule feistel_rounds_halves)
  have "enc e (dec e b) = join_block (feistel_rounds (rev (rev (des_subkeys e))) (prod.swap st))"
    by (simp add: dec_def enc_def st_def [symmetric] split_join_block(1) [OF h])
  also have "\<dots> = join_block (prod.swap (split_block b))"
    unfolding st_def by (simp only: feistel_rounds_inverse [OF h0 ks])
  also have "\<dots> = b" using b by (rule join_split_block)
  finally show ?thesis .
qed

text \<open>
  Claim C2.  For an engine built from any key and any round count and every block \<open>B\<close>
  of 8 bytes, \<open>encrypt_block\<close> returns a block of 8 bytes that \<open>decrypt_block\<close> maps back
  to \<open>B\<close>.  Both directions run the same rounds on the two halves of the block,
  encryption over the subkeys in order and decryption over the same subkeys reversed, and
  both assemble their output from the final right half followed by the final left half
  (\<open>join_block\<close>).
\<close>

theorem block_round_trip:
  "length B = 8 \<Longrightarrow>
   \<exists>e. DES_init key bs r kl iv = Inr e \<and>
       (\<exists>C. encrypt_block e B = Inr C \<and> length C = 8 \<and> decrypt_block e C = Inr B) \<and>
       encrypt_block e B = Inr (join_block (feistel_rounds (des_subkeys e) (split_block B))) \<and>
       decrypt_block e B = Inr (join_block (feistel_rounds (rev (des_subkeys e)) (split_block B))) \<and>
       (\<forall>s. join_block s = bits_to_bytes (snd s @ fst s)) \<and>
       (\<forall>L R k. feistel_step (L, R) k = (R, xor_bits L (round_fn R k)))"
proof -
  assume B: "length B = 8"
  obtain e where e: "DES_init key bs r kl iv = Inr e" by (simp add: DES_init_Inr)
  then have wf: "wf_engine e" by (rule DES_init_wf)
  have l: "length (enc e B) = 8" using wf B by (rule length_enc)
  have "encrypt_block e B = Inr (enc e B)" using wf B by (rule encrypt_block_wf)
  moreover have "decrypt_block e (enc e B) = Inr B"
    using decrypt_block_wf [OF wf l] dec_enc [OF wf B] by simp
  moreover have "decrypt_block e B = Inr (dec e B)" using wf B by (rule decrypt_block_wf)
  ultimately show ?thesis using e l by (auto simp: join_block_def enc_def dec_def)
qed

theorem block_round_trip_witness:
  "length [72, 69, 76, 76, 79, 65, 76, 73 :: byte] = 8 \<and>
   (\<exists>e. DES_init [77, 89, 83, 69, 67, 82, 69, 84] 64 16 64 None = Inr e \<and>
        (\<exists>C. encrypt_block e [72, 69, 76, 76, 79, 65, 76, 73] = Inr C \<and>
             decrypt_block e C = Inr [72, 69, 76, 76, 79, 65, 76, 73]))"
  using block_round_trip [of "[72, 69, 76, 76, 79, 65, 76, 73]"
      "[77, 89, 83, 69, 67, 82, 69, 84]" 64 16 64 None]
  by auto

text \<open>
  Claim C6.  For a key of 8 bytes and a round count \<open>R\<close>, \<open>_generate_subkeys\<close> never
  raises and returns the key schedule of the specification: \<open>R\<close> subkeys (none for a
  negative \<open>R\<close>) of 48 bits each, subkey \<open>i\<close> being PC-2 of the two 28-bit halves of
  PC-1 of the key after the rotations of rounds \<open>0, \<dots>, i\<close>, each applied to the halves
  the previous round left, with the amount of round \<open>i\<close> taken from the rotation table at
  \<open>i mod 16\<close>.  The engine stores exactly this schedule.
\<close>

theorem key_schedule_spec:
  "length key = 8 \<Longrightarrow>
   generate_subkeys key R = Inr (spec_key_schedule key (nat R)) \<and>
   length (spec_key_schedule key (nat R)) = nat R \<and>
   list_all (\<lambda>k. length k = 48) (spec_key_schedule key (nat R)) \<and>
   (\<exists>e. DES_init key bs R kl iv = Inr e \<and> des_rounds e = R \<and> des_key e = key \<and>
        des_subkeys e = spec_key_schedule key (nat R))"
proof -
  assume k: "length key = 8"
  then have n: "normal_key key = key" by (simp add: normal_key_def)
  have "list_all (\<lambda>k. length k = 48) (spec_key_schedule key (nat R))"
    by (simp add: list_all_iff spec_key_schedule_def)
  then show ?thesis
    using generate_subkeys_spec [OF k, of R] by (simp add: DES_init_Inr n)
qed

theorem key_schedule_spec_witness:
  "length [77, 89, 83, 69, 67, 82, 69, 84 :: byte] = 8 \<and>
   generate_subkeys [77, 89, 83, 69, 67, 82, 69, 84] 20
     = Inr (spec_key_schedule [77, 89, 83, 69, 67, 82, 69, 84] 20) \<and>
   length (spec_key_schedule [77, 89, 83, 69, 67, 82, 69, 84] 20) = 20"
  using key_schedule_spec [of "[77, 89, 83, 69, 67, 82, 69, 84]" 20]
  by simp


section \<open>The modes on well-formed inputs\<close>

lemma get_blocks_8: "mode_block_size_bytes m = 8 \<Longrightarrow> get_blocks m data = Inr (chunks 8 data)"
  using range_step_chunks [of 8 data] by (simp add: get_blocks_def)

lemma length_xor_bytes [simp]: "length (xor_bytes a b) = min (length a) (length b)"
  by (simp add: xor_bytes_def)

lemma xor_bytes_cancel: "length a = length b \<Longrightarrow> xor_bytes (xor_bytes a b) b = a"
  unfolding xor_bytes_def
  by (induction a b rule: list_induct2) (simp_all add: xor.assoc)

lemma xor_bytes_cancel2: "length a = length b \<Longrightarrow> xor_bytes (xor_bytes a b) a = b"
  unfolding xor_bytes_def
  by (induction a b rule: list_induct2) (simp_all add: xor.commute xor.left_commute)

lemma length_pad_8:
  "pad d 8 = Inr p \<Longrightarrow> 8 dvd length p \<and> length p = 8 * (length d div 8) + 8"
proof -
  assume "pad d 8 = Inr p"
  then have p: "p = d @ replicate (8 - length d mod 8) (of_nat (8 - length d mod 8))"
    by (simp add: pad_8)
  have "length d + (8 - length d mod 8) = 8 * (length d div 8) + 8"
    by presburger
  then have l: "length p = 8 * (length d div 8) + 8" unfolding p by simp
  then show ?thesis by simp
qed

lemma pad_padded: "pad d 8 = Inr (padded d)"
  by (simp add: pad_8 padded_def)

lemma unpad_padded: "unpad (padded d) 8 = d"
  unfolding padded_def by (rule unpad_pad_8)

lemma length_padded: "length (padded d) = 8 * (length d div 8) + 8"
  using length_pad_8 [OF pad_padded] by simp

lemma padded_dvd: "8 dvd length (padded d)"
  by (simp add: length_padded)

lemma chunks_padded: "\<forall>b\<in>set (chunks 8 (padded d)). length b = 8"
  by (intro chunks_length padded_dvd) simp

lemma length_chunks_padded: "length (chunks 8 (padded d)) = length d div 8 + 1"
  using length_chunks [of 8 "padded d"] by (simp add: padded_dvd length_padded)

lemma length_concat_8:
  "\<forall>b\<in>set bs. length b = 8 \<Longrightarrow> length (concat bs) = 8 * length bs"
  by (induction bs) simp_all

lemma map_err_encrypt:
  assumes "wf_engine e" "\<forall>b\<in>set bs. length b = 8"
  shows "map_err (encrypt_block e) bs = Inr (map (enc e) bs)"
  using assms by (intro map_err_Inr encrypt_block_wf) auto

lemma map_err_decrypt:
  assumes "wf_engine e" "\<forall>b\<in>set bs. length b = 8"
  shows "map_err (decrypt_block e) bs = Inr (map (dec e) bs)"
  using assms by (intro map_err_Inr decrypt_block_wf) auto

lemma mode_of_engine:
  assumes "DES_init key 64 r kl iv = Inr e"
  shows "BaseMode_init (Some e) =
           Inr \<lparr>mode_des = Some e, mode_block_size_bytes = 8, mode_iv = iv\<rparr>"
    and "ecb_ok \<lparr>mode_des = Some e, mode_block_size_bytes = 8, mode_iv = iv\<rparr> e"
proof -
  from assms have f: "des_block_size e = 64" "des_iv e = iv"
    by (auto simp: DES_init_Inr)
  then show "BaseMode_init (Some e) =
           Inr \<lparr>mode_des = Some e, mode_block_size_bytes = 8, mode_iv = iv\<rparr>"
    by (simp add: BaseMode_init_def)
  from DES_init_wf [OF assms] show "ecb_ok \<lparr>mode_des = Some e, mode_block_size_bytes = 8, mode_iv = iv\<rparr> e"
    by (simp add: ecb_ok_def)
qed

lemma ECB_encrypt_ok:
  assumes "ecb_ok m e"
  shows "ECB_encrypt m P = Inr (concat (map (enc e) (chunks 8 (padded P))))"
proof -
  from assms have m: "mode_des m = Some e" "wf_engine e" "mode_block_size_bytes m = 8"
    by (simp_all add: ecb_ok_def)
  show ?thesis
    by (simp add: ECB_encrypt_def m pad_padded get_blocks_8
        map_err_encrypt [OF m(2) chunks_padded])
qed

lemma ECB_decrypt_ok:
  assumes "ecb_ok m e" "\<forall>c\<in>set cs. length c = 8"
  shows "ECB_decrypt m (concat cs) = Inr (unpad (concat (map (dec e) cs)) 8)"
proof -
  from assms have m: "mode_des m = Some e" "wf_engine e" "mode_block_size_bytes m = 8"
    by (simp_all add: ecb_ok_def)
  have c: "chunks 8 (concat cs) = cs" using assms(2) by (intro chunks_concat) simp_all
  show ?thesis
    by (simp add: ECB_decrypt_def m get_blocks_8 c map_err_decrypt [OF m(2) assms(2)])
qed

lemma ECB_round_trip:
  assumes "ecb_ok m e"
  shows "\<exists>c. ECB_encrypt m P = Inr c \<and> ECB_decrypt m c = Inr P"
proof -
  from assms have wf: "wf_engine e" by (simp add: ecb_ok_def)
  let ?bs = "chunks 8 (padded P)"
  have l: "\<forall>c\<in>set (map (enc e) ?bs). length c = 8"
    using chunks_padded [of P] by (auto simp: length_enc [OF wf])
  have "map (dec e) (map (enc e) ?bs) = ?bs"
    using chunks_padded [of P] by (simp add: map_idI dec_enc [OF wf])
  then have "ECB_decrypt m (concat (map (enc e) ?bs)) = Inr P"
    by (simp add: ECB_decrypt_ok [OF assms l] concat_chunks unpad_padded)
  then show ?thesis by (simp add: ECB_encrypt_ok [OF assms])
qed

lemma cbc_loops:
  assumes wf: "wf_engine e"
  shows "\<forall>b\<in>set bs. length b = 8 \<Longrightarrow> length prev = 8 \<Longrightarrow>
         \<exists>cs. cbc_encrypt_loop e bs prev = Inr cs \<and> (\<forall>c\<in>set cs. length c = 8) \<and>
              cbc_decrypt_loop e cs prev = Inr bs"
proof (induction bs arbitrary: prev)
  case Nil
  show ?case by simp
next
  case (Cons b bs)
  from Cons.prems have b: "length b = 8" and bs: "\<forall>b\<in>set bs. length b = 8" by simp_all
  define x where "x = xor_bytes b prev"
  have lx: "length x = 8" using b Cons.prems(2) by (simp add: x_def)
  define c where "c = enc e x"
  have lc: "length c = 8" unfolding c_def using wf lx by (rule length_enc)
  have ec: "encrypt_block e x = Inr c" unfolding c_def using wf lx by (rule encrypt_block_wf)
  have dc: "decrypt_block e c = Inr x"
    using decrypt_block_wf [OF wf lc] dec_enc [OF wf lx] by (simp add: c_def)
  from Cons.IH [OF bs lc] obtain cs where cs: "cbc_encrypt_loop e bs c = Inr cs"
    "\<forall>c\<in>set cs. length c = 8" "cbc_decrypt_loop e cs c = Inr bs" by blast
  have bk: "xor_bytes x prev = b"
    unfolding x_def using b Cons.prems(2) by (intro xor_bytes_cancel) simp
  have "cbc_encrypt_loop e (b # bs) prev = Inr (c # cs)"
    by (simp add: x_def [symmetric] ec cs(1))
  moreover have "cbc_decrypt_loop e (c # cs) prev = Inr (b # bs)"
    by (simp add: dc cs(3) bk)
  ultimately show ?case using lc cs(2) by auto
qed

lemma cfb_loops:
  assumes wf: "wf_engine e"
  shows "\<forall>b\<in>set bs. length b = 8 \<Longrightarrow> length prev = 8 \<Longrightarrow>
         \<exists>cs. cfb_encrypt_loop e bs prev = Inr cs \<and> (\<forall>c\<in>set cs. length c = 8) \<and>
              cfb_decrypt_loop e cs prev = Inr bs"
proof (induction bs arbitrary: prev)
  case Nil
  show ?case by simp
next
  case (Cons b bs)
  from Cons.prems have b: "length b = 8" and bs: "\<forall>b\<in>set bs. length b = 8" by simp_all
  define k where "k = enc e prev"
  have lk: "length k = 8" unfolding k_def using wf Cons.prems(2) by (rule length_enc)
  have ek: "encrypt_block e prev = Inr k"
    unfolding k_def using wf Cons.prems(2) by (rule encrypt_block_wf)
  define c where "c = xor_bytes b k"
  have lc: "length c = 8" using b lk by (simp add: c_def)
  from Cons.IH [OF bs lc] obtain cs where cs: "cfb_encrypt_loop e bs c = Inr cs"
    "\<forall>c\<in>set cs. length c = 8" "cfb_decrypt_loop e cs c = Inr bs" by blast
  have bk: "xor_bytes c k = b"
    unfolding c_def using b lk by (intro xor_bytes_cancel) simp
  have "cfb_encrypt_loop e (b # bs) prev = Inr (c # cs)"
    by (simp add: ek c_def [symmetric] cs(1))
  moreover have "cfb_decrypt_loop e (c # cs) prev = Inr (b # bs)"
    by (simp add: ek cs(3) bk)
  ultimately show ?case using lc cs(2) by auto
qed

lemma CBC_round_trip:
  assumes "iv_ok m e iv"
  shows "\<exists>c. CBC_encrypt m P = Inr c \<and> CBC_decrypt m c = Inr P"
proof -
  from assms have m: "mode_des m = Some e" "wf_engine e" "mode_block_size_bytes m = 8"
    "mode_iv m = Some iv" "length iv = 8"
    by (simp_all add: iv_ok_def ecb_ok_def)
  from m(5) have ne: "iv \<noteq> []" by auto
  from cbc_loops [OF m(2) chunks_padded m(5), of P] obtain cs where
    cs: "cbc_encrypt_loop e (chunks 8 (padded P)) iv = Inr cs" "\<forall>c\<in>set cs. length c = 8"
      "cbc_decrypt_loop e cs iv = Inr (chunks 8 (padded P))" by blast
  have c: "chunks 8 (concat cs) = cs" using cs(2) by (intro chunks_concat) simp_all
  have "CBC_encrypt m P = Inr (concat cs)"
    by (simp add: CBC_encrypt_def m ne pad_padded get_blocks_8 cs(1))
  moreover have "CBC_decrypt m (concat cs) = Inr P"
    by (simp add: CBC_decrypt_def m ne get_blocks_8 c cs(3) concat_chunks unpad_padded)
  ultimately show ?thesis by blast
qed

lemma CFB_round_trip:
  assumes "iv_ok m e iv"
  shows "\<exists>c. CFB_encrypt m P = Inr c \<and> CFB_decrypt m c = Inr P"
proof -
  from assms have m: "mode_des m = Some e" "wf_engine e" "mode_block_size_bytes m = 8"
    "mode_iv m = Some iv" "length iv = 8"
    by (simp_all add: iv_ok_def ecb_ok_def)
  from m(5) have ne: "iv \<noteq> []" by auto
  from cfb_loops [OF m(2) chunks_padded m(5), of P] obtain cs where
    cs: "cfb_encrypt_loop e (chunks 8 (padded P)) iv = Inr cs" "\<forall>c\<in>set cs. length c = 8"
      "cfb_decrypt_loop e cs iv = Inr (chunks 8 (padded P))" by blast
  have c: "chunks 8 (concat cs) = cs" using cs(2) by (intro chunks_concat) simp_all
  have "CFB_encrypt m P = Inr (concat cs)"
    by (simp add: CFB_encrypt_def m ne pad_padded get_blocks_8 cs(1))
  moreover have "CFB_decrypt m (concat cs) = Inr P"
    by (simp add: CFB_decrypt_def m ne get_blocks_8 c cs(3) concat_chunks unpad_padded)
  ultimately show ?thesis by blast
qed

lemma map2_xor_bytes_lengths:
  "\<forall>b\<in>set bs. length b = 8 \<Longrightarrow> \<forall>k\<in>set ks. length k = 8 \<Longrightarrow>
   \<forall>c\<in>set (map2 xor_bytes bs ks). length c = 8"
  by (auto dest!: set_zip_leftD set_zip_rightD simp: set_zip) 

lemma ofb_stream_lengths:
  assumes wf: "wf_engine e"
  shows "length fb = 8 \<Longrightarrow>
   length (ofb_stream e fb n) = n \<and> (\<forall>k\<in>set (ofb_stream e fb n). length k = 8)"
proof (induction n arbitrary: fb)
  case 0
  show ?case by simp
next
  case (Suc n)
  have l: "length (enc e fb) = 8" using wf Suc.prems by (rule length_enc)
  from Suc.IH [OF l] l show ?case by simp
qed

lemma ofb_loop_ok:
  assumes wf: "wf_engine e"
  shows "length fb = 8 \<Longrightarrow>
         ofb_loop e bs fb = Inr (map2 xor_bytes bs (ofb_stream e fb (length bs)))"
proof (induction bs arbitrary: fb)
  case Nil
  show ?case by simp
next
  case (Cons b bs)
  have l: "length (enc e fb) = 8" using wf Cons.prems by (rule length_enc)
  show ?case
    by (simp add: encrypt_block_wf [OF wf Cons.prems] Cons.IH [OF l])
qed

lemma int_from_bytes_snoc: "int_from_bytes (bs @ [b]) = int_from_bytes bs * 256 + unat b"
  by (simp add: int_from_bytes_def)

lemma int_from_bytes_lt: "int_from_bytes bs < 256 ^ length bs"
proof (induction bs rule: rev_induct)
  case Nil
  show ?case by (simp add: int_from_bytes_def)
next
  case (snoc b bs)
  have "unat b < 256" using unsigned_less [of b, where 'a = nat] by simp
  with snoc show ?case by (simp add: int_from_bytes_snoc)
qed

lemma int_to_bytes_8:
  "int_to_bytes n 8 = (if 2 ^ 64 \<le> n then Inl OverflowError else Inr (bytes8 n))"
proof -
  have "(256 :: nat) ^ 8 = 2 ^ 64" by simp
  then show ?thesis
    by (simp add: int_to_bytes_def bytes8_def)
qed

lemma length_bytes8 [simp]: "length (bytes8 n) = 8"
  by (simp add: bytes8_def)

lemma ctr_stream_lengths:
  "wf_engine e \<Longrightarrow>
   length (ctr_stream e v n) = n \<and> (\<forall>k\<in>set (ctr_stream e v n). length k = 8)"
  by (induction n arbitrary: v) (simp_all add: length_enc)

lemma ctr_stream_nth:
  "i < n \<Longrightarrow> ctr_stream e v n ! i = enc e (bytes8 (v + i))"
proof (induction n arbitrary: v i)
  case 0
  then show ?case by simp
next
  case (Suc n)
  then show ?case by (cases i) simp_all
qed

lemma ctr_loop_ok:
  assumes wf: "wf_engine e"
  shows "v + length bs \<le> 2 ^ 64 \<Longrightarrow>
         ctr_loop e 8 bs v = Inr (map2 xor_bytes bs (ctr_stream e v (length bs)))"
proof (induction bs arbitrary: v)
  case Nil
  show ?case by simp
next
  case (Cons b bs)
  from Cons.prems have v: "\<not> 2 ^ 64 \<le> v" and r: "Suc v + length bs \<le> 2 ^ 64" by simp_all
  have eb: "encrypt_block e (bytes8 v) = Inr (enc e (bytes8 v))"
    using wf by (rule encrypt_block_wf) simp
  show ?case
    using v by (simp add: int_to_bytes_8 eb Cons.IH [OF r])
qed

lemma ctr_loop_overflow:
  assumes wf: "wf_engine e"
  shows "v \<le> 2 ^ 64 \<Longrightarrow> 2 ^ 64 < v + length bs \<Longrightarrow> ctr_loop e 8 bs v = Inl OverflowError"
proof (induction bs arbitrary: v)
  case Nil
  then show ?case by simp
next
  case (Cons b bs)
  show ?case
  proof (cases "2 ^ 64 \<le> v")
    case True
    then show ?thesis by (simp add: int_to_bytes_8)
  next
    case False
    then have le: "Suc v \<le> 2 ^ 64" by simp
    from Cons.prems(2) have lt: "2 ^ 64 < Suc v + length bs" by simp
    have eb: "encrypt_block e (bytes8 v) = Inr (enc e (bytes8 v))"
      using wf by (rule encrypt_block_wf) simp
    show ?thesis
      using False by (simp add: int_to_bytes_8 eb Cons.IH [OF le lt])
  qed
qed

lemma length_concat_map2_xor:
  "\<forall>b\<in>set bs. length b = 8 \<Longrightarrow> \<forall>k\<in>set ks. length k = 8 \<Longrightarrow> length ks = length bs \<Longrightarrow>
   length (concat (map2 xor_bytes bs ks)) = 8 * length bs"
  using map2_xor_bytes_lengths [of bs ks] length_concat_8 [of "map2 xor_bytes bs ks"]
  by simp

lemma OFB_encrypt_ok:
  assumes "iv_ok m e iv"
  shows "OFB_encrypt m X =
           Inr (concat (map2 xor_bytes (chunks 8 (padded X)) (ofb_stream e iv (length X div 8 + 1))))"
proof -
  from assms have m: "mode_des m = Some e" "wf_engine e" "mode_block_size_bytes m = 8"
    "mode_iv m = Some iv" "length iv = 8"
    by (simp_all add: iv_ok_def ecb_ok_def)
  from m(5) have ne: "iv \<noteq> []" by auto
  show ?thesis
    by (simp add: OFB_encrypt_def m ne pad_padded get_blocks_8 ofb_loop_ok [OF m(2) m(5)]
        length_chunks_padded)
qed

lemma CTR_encrypt_ok:
  assumes "iv_ok m e iv" "int_from_bytes iv + length X div 8 + 1 \<le> 2 ^ 64"
  shows "CTR_encrypt m X =
           Inr (concat (map2 xor_bytes (chunks 8 (padded X))
                  (ctr_stream e (int_from_bytes iv) (length X div 8 + 1))))"
proof -
  from assms have m: "mode_des m = Some e" "wf_engine e" "mode_block_size_bytes m = 8"
    "mode_iv m = Some iv" "length iv = 8"
    by (simp_all add: iv_ok_def ecb_ok_def)
  from m(5) have ne: "iv \<noteq> []" by auto
  have "int_from_bytes iv + length (chunks 8 (padded X)) \<le> 2 ^ 64"
    using assms(2) by (simp add: length_chunks_padded)
  from ctr_loop_ok [OF m(2) this] show ?thesis
    by (simp add: CTR_encrypt_def m ne pad_padded get_blocks_8 length_chunks_padded)
qed

lemma CTR_encrypt_overflow:
  assumes "iv_ok m e iv" "2 ^ 64 \<le> int_from_bytes iv + length X div 8"
  shows "CTR_encrypt m X = Inl OverflowError"
proof -
  from assms have m: "mode_des m = Some e" "wf_engine e" "mode_block_size_bytes m = 8"
    "mode_iv m = Some iv" "length iv = 8"
    by (simp_all add: iv_ok_def ecb_ok_def)
  from m(5) have ne: "iv \<noteq> []" by auto
  have "int_from_bytes iv < 256 ^ length iv" by (rule int_from_bytes_lt)
  then have le: "int_from_bytes iv \<le> 2 ^ 64" by (simp add: m(5))
  have "2 ^ 64 < int_from_bytes iv + length (chunks 8 (padded X))"
    using assms(2) by (simp add: length_chunks_padded)
  from ctr_loop_overflow [OF m(2) le this] show ?thesis
    by (simp add: CTR_encrypt_def m ne pad_padded get_blocks_8)
qed

lemma stream_encrypt_length:
  assumes "\<forall>k\<in>set ks. length k = 8" "length ks = length X div 8 + 1"
  shows "length (concat (map2 xor_bytes (chunks 8 (padded X)) ks)) = 8 * (length X div 8) + 8"
  using length_concat_map2_xor [OF chunks_padded assms(1), of X] assms(2)
  by (simp add: length_chunks_padded)

lemma chunks_stream:
  assumes "\<forall>k\<in>set ks. length k = 8" "length ks = length X div 8 + 1"
  shows "chunks 8 (concat (map2 xor_bytes (chunks 8 (padded X)) ks))
         = map2 xor_bytes (chunks 8 (padded X)) ks"
  using map2_xor_bytes_lengths [OF chunks_padded assms(1), of X]
  by (intro chunks_concat) simp_all

lemma map2_xor_bytes_cancel:
  "length bs = length ks \<Longrightarrow> \<forall>b\<in>set bs. length b = 8 \<Longrightarrow> \<forall>k\<in>set ks. length k = 8 \<Longrightarrow>
   map2 xor_bytes (map2 xor_bytes bs ks) ks = bs"
  by (induction bs ks rule: list_induct2) (simp_all add: xor_bytes_cancel)

lemma padded_of_blocks:
  assumes "8 dvd length c"
  shows "padded c = c @ replicate 8 8"
  using assms by (simp add: padded_def dvd_eq_mod_eq_0)

lemma chunks_snoc:
  assumes "8 dvd length c" "length r = 8"
  shows "chunks 8 (c @ r) = chunks 8 c @ [r]"
proof -
  have l: "\<forall>x\<in>set (chunks 8 c). length x = 8" using assms(1) by (intro chunks_length) simp_all
  have "chunks 8 (concat (chunks 8 c @ [r])) = chunks 8 c @ [r]"
    using l assms(2) by (intro chunks_concat) auto
  then show ?thesis by (simp add: concat_chunks)
qed

lemma ofb_stream_take: "take n (ofb_stream e fb (Suc n)) = ofb_stream e fb n"
  by (induction n arbitrary: fb) simp_all

lemma ctr_stream_take: "take n (ctr_stream e v (Suc n)) = ctr_stream e v n"
  by (induction n arbitrary: v) simp_all

lemma map2_snoc_take:
  assumes "length xs = n" "length ys = Suc n"
  shows "map2 f (xs @ [x]) ys = map2 f xs (take n ys) @ [f x (ys ! n)]"
proof -
  have "ys = take n ys @ [ys ! n]"
    using assms(2) by (metis lessI take_Suc_conv_app_nth take_all order_refl)
  then have "map2 f (xs @ [x]) ys = map2 f (xs @ [x]) (take n ys @ [ys ! n])" by simp
  also have "\<dots> = map2 f xs (take n ys) @ [f x (ys ! n)]"
    using assms by (subst zip_append) simp_all
  finally show ?thesis .
qed

text \<open>
  Running a stream cipher's encryption again on its own output, as \<open>OFB.decrypt\<close> and
  \<open>CTR.decrypt\<close> do: the padded plaintext comes back, followed by one more block.
\<close>

lemma stream_twice:
  assumes ks: "\<forall>k\<in>set ks. length k = 8" "length ks = Suc n"
    and n: "n = length X div 8 + 1"
    and c: "c = concat (map2 xor_bytes (chunks 8 (padded X)) (take n ks))"
  shows "concat (map2 xor_bytes (chunks 8 (padded c)) ks)
         = padded X @ xor_bytes (replicate 8 8) (ks ! n)"
proof -
  let ?bs = "chunks 8 (padded X)"
  have lb: "length ?bs = n" by (simp add: n length_chunks_padded)
  have tk: "\<forall>k\<in>set (take n ks). length k = 8" using ks(1) by (auto dest: in_set_takeD)
  have ltk: "length (take n ks) = n" using ks(2) by simp
  have lm: "\<forall>x\<in>set (map2 xor_bytes ?bs (take n ks)). length x = 8"
    using chunks_padded tk by (rule map2_xor_bytes_lengths)
  have lc: "length c = 8 * n"
    unfolding c using length_concat_8 [OF lm] lb ltk by simp
  then have d: "8 dvd length c" by simp
  have cc: "chunks 8 c = map2 xor_bytes ?bs (take n ks)"
    unfolding c using lm by (intro chunks_concat) simp_all
  have "chunks 8 (padded c) = map2 xor_bytes ?bs (take n ks) @ [replicate 8 8]"
    by (simp add: padded_of_blocks [OF d] chunks_snoc [OF d] cc)
  then have "map2 xor_bytes (chunks 8 (padded c)) ks
        = map2 xor_bytes (map2 xor_bytes ?bs (take n ks)) (take n ks)
          @ [xor_bytes (replicate 8 8) (ks ! n)]"
    using lb ltk ks(2) by (simp add: map2_snoc_take [where n = n])
  also have "map2 xor_bytes (map2 xor_bytes ?bs (take n ks)) (take n ks) = ?bs"
    using lb ltk chunks_padded tk by (intro map2_xor_bytes_cancel) simp_all
  finally show ?thesis by (simp add: concat_chunks)
qed

lemma OFB_decrypt_encrypt:
  assumes "iv_ok m e iv"
  shows "\<exists>c x. OFB_encrypt m P = Inr c \<and> length c = 8 * (length P div 8) + 8 \<and>
               OFB_decrypt m c = Inr (padded P @ x) \<and> length x = 8"
proof -
  from assms have wf: "wf_engine e" and iv: "length iv = 8"
    by (simp_all add: iv_ok_def ecb_ok_def)
  define n where "n = length P div 8 + 1"
  define ks where "ks = ofb_stream e iv (Suc n)"
  define c where "c = concat (map2 xor_bytes (chunks 8 (padded P)) (take n ks))"
  from ofb_stream_lengths [OF wf iv, of "Suc n"]
  have ks: "\<forall>k\<in>set ks. length k = 8" "length ks = Suc n"
    unfolding ks_def by blast+
  have tk: "take n ks = ofb_stream e iv n" by (simp only: ks_def ofb_stream_take)
  have e1: "OFB_encrypt m P = Inr c"
    unfolding c_def tk unfolding n_def by (rule OFB_encrypt_ok [OF assms])
  have tl: "\<forall>k\<in>set (take n ks). length k = 8" "length (take n ks) = length P div 8 + 1"
    using ks by (auto dest: in_set_takeD simp: n_def)
  have lc: "length c = 8 * (length P div 8) + 8"
    unfolding c_def using tl by (rule stream_encrypt_length)
  then have sn: "length c div 8 + 1 = Suc n" by (simp add: n_def)
  have "OFB_decrypt m c
        = Inr (concat (map2 xor_bytes (chunks 8 (padded c)) (ofb_stream e iv (length c div 8 + 1))))"
    unfolding OFB_decrypt_def by (rule OFB_encrypt_ok [OF assms])
  then have "OFB_decrypt m c = Inr (concat (map2 xor_bytes (chunks 8 (padded c)) ks))"
    unfolding sn ks_def .
  also have "concat (map2 xor_bytes (chunks 8 (padded c)) ks)
             = padded P @ xor_bytes (replicate 8 8) (ks ! n)"
    using ks n_def c_def by (rule stream_twice)
  finally have e2: "OFB_decrypt m c = Inr (padded P @ xor_bytes (replicate 8 8) (ks ! n))" .
  have "ks ! n \<in> set ks" using ks(2) by simp
  with ks(1) have "length (xor_bytes (replicate 8 8) (ks ! n)) = 8" by simp
  with e1 lc e2 show ?thesis by blast
qed

lemma CTR_decrypt_encrypt:
  assumes "iv_ok m e iv" "int_from_bytes iv + length P div 8 + 2 \<le> 2 ^ 64"
  shows "\<exists>c x. CTR_encrypt m P = Inr c \<and> length c = 8 * (length P div 8) + 8 \<and>
               CTR_decrypt m c = Inr (padded P @ x) \<and> length x = 8"
proof -
  from assms have wf: "wf_engine e" and iv: "length iv = 8"
    by (simp_all add: iv_ok_def ecb_ok_def)
  define n where "n = length P div 8 + 1"
  define v where "v = int_from_bytes iv"
  define ks where "ks = ctr_stream e v (Suc n)"
  define c where "c = concat (map2 xor_bytes (chunks 8 (padded P)) (take n ks))"
  from ctr_stream_lengths [OF wf, of v "Suc n"]
  have ks: "\<forall>k\<in>set ks. length k = 8" "length ks = Suc n"
    unfolding ks_def by blast+
  have tk: "take n ks = ctr_stream e v n" by (simp only: ks_def ctr_stream_take)
  from assms(2) have b1: "int_from_bytes iv + length P div 8 + 1 \<le> 2 ^ 64" by simp
  have e1: "CTR_encrypt m P = Inr c"
    unfolding c_def tk unfolding n_def v_def by (rule CTR_encrypt_ok [OF assms(1) b1])
  have tl: "\<forall>k\<in>set (take n ks). length k = 8" "length (take n ks) = length P div 8 + 1"
    using ks by (auto dest: in_set_takeD simp: n_def)
  have lc: "length c = 8 * (length P div 8) + 8"
    unfolding c_def using tl by (rule stream_encrypt_length)
  then have sn: "length c div 8 + 1 = Suc n" by (simp add: n_def)
  with assms(2) have b2: "int_from_bytes iv + length c div 8 + 1 \<le> 2 ^ 64"
    by (simp add: n_def)
  have "CTR_decrypt m c
        = Inr (concat (map2 xor_bytes (chunks 8 (padded c))
                 (ctr_stream e (int_from_bytes iv) (length c div 8 + 1))))"
    unfolding CTR_decrypt_def by (rule CTR_encrypt_ok [OF assms(1) b2])
  then have "CTR_decrypt m c = Inr (concat (map2 xor_bytes (chunks 8 (padded c)) ks))"
    unfolding sn ks_def v_def .
  also have "concat (map2 xor_bytes (chunks 8 (padded c)) ks)
             = padded P @ xor_bytes (replicate 8 8) (ks ! n)"
    using ks n_def c_def by (rule stream_twice)
  finally have e2: "CTR_decrypt m c = Inr (padded P @ xor_bytes (replicate 8 8) (ks ! n))" .
  have "ks ! n \<in> set ks" using ks(2) by simp
  with ks(1) have "length (xor_bytes (replicate 8 8) (ks ! n)) = 8" by simp
  with e1 lc e2 show ?thesis by blast
qed


section \<open>Round trips through the modes\<close>

lemma iv_ok_of_engine:
  assumes "DES_init key 64 r kl (Some iv) = Inr e" "length iv = 8"
  shows "iv_ok \<lparr>mode_des = Some e, mode_block_size_bytes = 8, mode_iv = Some iv\<rparr> e iv"
  using mode_of_engine(2) [OF assms(1)] assms(2) by (simp add: iv_ok_def ecb_ok_def)

lemma example_mode_eq:
  "example_mode = \<lparr>mode_des = Some example_engine, mode_block_size_bytes = 8,
                   mode_iv = Some example_iv\<rparr>"
  "iv_ok example_mode example_engine example_iv"
proof -
  have e: "DES_init example_key 64 16 64 (Some example_iv) = Inr example_engine"
    by (simp add: example_engine_def DES_init_Inr)
  from mode_of_engine(1) [OF e]
  show m: "example_mode = \<lparr>mode_des = Some example_engine, mode_block_size_bytes = 8,
                   mode_iv = Some example_iv\<rparr>"
    by (simp add: example_mode_def)
  have "length example_iv = 8" by (simp add: example_iv_def)
  from iv_ok_of_engine [OF e this] show "iv_ok example_mode example_engine example_iv"
    by (simp add: m)
qed

lemma example_lengths:
  "length example_plaintext = 8" "int_from_bytes example_iv + 3 \<le> 2 ^ 64"
  by (simp_all add: example_plaintext_def example_iv_def int_from_bytes_def)

text \<open>
  The three modes whose \<open>decrypt\<close> strips the padding: for an engine built from any key
  and round count with the default block size and an initialization vector of 8 bytes,
  decrypting the encryption of any plaintext returns the plaintext.
\<close>

lemma block_modes_round_trip:
  assumes "length iv = 8"
  shows "\<exists>e m. DES_init key 64 r kl (Some iv) = Inr e \<and> BaseMode_init (Some e) = Inr m \<and>
           (\<exists>c. mode_encrypt ECB m P = Inr c \<and> mode_decrypt ECB m c = Inr P) \<and>
           (\<exists>c. mode_encrypt CBC m P = Inr c \<and> mode_decrypt CBC m c = Inr P) \<and>
           (\<exists>c. mode_encrypt CFB m P = Inr c \<and> mode_decrypt CFB m c = Inr P)"
proof -
  obtain e where e: "DES_init key 64 r kl (Some iv) = Inr e" by (simp add: DES_init_Inr)
  define m where "m = \<lparr>mode_des = Some e, mode_block_size_bytes = 8, mode_iv = Some iv\<rparr>"
  have bm: "BaseMode_init (Some e) = Inr m"
    unfolding m_def by (rule mode_of_engine(1) [OF e])
  have ok: "iv_ok m e iv" unfolding m_def using e assms by (rule iv_ok_of_engine)
  then have eo: "ecb_ok m e" by (simp add: iv_ok_def)
  from ECB_round_trip [OF eo, of P] CBC_round_trip [OF ok, of P] CFB_round_trip [OF ok, of P]
    e bm
  show ?thesis by auto
qed


text \<open>
  Claim C1, at the input key \<open>MYSECRET\<close>, 16 rounds, initialization vector \<open>12345678\<close>,
  plaintext \<open>HELLOALI\<close>.  In OFB and in CTR mode, encryption succeeds and decryption
  of its result returns 24 bytes, namely the plaintext, the eight padding bytes and one
  more block, and so not the plaintext.
\<close>

theorem stream_modes_round_trip_fails:
  "\<not> isl (mode_encrypt OFB example_mode example_plaintext) \<and>
   \<not> isl (mode_decrypt OFB example_mode
            (projr (mode_encrypt OFB example_mode example_plaintext))) \<and>
   length (projr (mode_decrypt OFB example_mode
            (projr (mode_encrypt OFB example_mode example_plaintext)))) = 24 \<and>
   take 16 (projr (mode_decrypt OFB example_mode
            (projr (mode_encrypt OFB example_mode example_plaintext))))
     = example_plaintext @ [8, 8, 8, 8, 8, 8, 8, 8] \<and>
   mode_decrypt OFB example_mode (projr (mode_encrypt OFB example_mode example_plaintext))
     \<noteq> Inr example_plaintext \<and>
   \<not> isl (mode_encrypt CTR example_mode example_plaintext) \<and>
   \<not> isl (mode_decrypt CTR example_mode
            (projr (mode_encrypt CTR example_mode example_plaintext))) \<and>
   length (projr (mode_decrypt CTR example_mode
            (projr (mode_encrypt CTR example_mode example_plaintext)))) = 24 \<and>
   take 16 (projr (mode_decrypt CTR example_mode
            (projr (mode_encrypt CTR example_mode example_plaintext))))
     = example_plaintext @ [8, 8, 8, 8, 8, 8, 8, 8] \<and>
   mode_decrypt CTR example_mode (projr (mode_encrypt CTR example_mode example_plaintext))
     \<noteq> Inr example_plaintext"
proof -
  have p: "padded example_plaintext = example_plaintext @ [8, 8, 8, 8, 8, 8, 8, 8]"
    by (simp add: padded_def example_plaintext_def numeral_eq_Suc)
  have lp: "length (example_plaintext @ [8, 8, 8, 8, 8, 8, 8, 8 :: byte]) = 16"
    by (simp add: example_plaintext_def)
  from OFB_decrypt_encrypt [OF example_mode_eq(2), of example_plaintext]
  obtain c x where o: "OFB_encrypt example_mode example_plaintext = Inr c"
    "OFB_decrypt example_mode c = Inr (padded example_plaintext @ x)" "length x = 8"
    by blast
  have b: "int_from_bytes example_iv + length example_plaintext div 8 + 2 \<le> 2 ^ 64"
    using example_lengths by simp
  from CTR_decrypt_encrypt [OF example_mode_eq(2) b]
  obtain c' x' where t: "CTR_encrypt example_mode example_plaintext = Inr c'"
    "CTR_decrypt example_mode c' = Inr (padded example_plaintext @ x')" "length x' = 8"
    by blast
  have "length (padded example_plaintext @ x) = 24" "length (padded example_plaintext @ x') = 24"
    "padded example_plaintext @ x \<noteq> example_plaintext"
    "padded example_plaintext @ x' \<noteq> example_plaintext"
    "take 16 (padded example_plaintext @ x) = example_plaintext @ [8, 8, 8, 8, 8, 8, 8, 8]"
    "take 16 (padded example_plaintext @ x') = example_plaintext @ [8, 8, 8, 8, 8, 8, 8, 8]"
    using o(3) t(3) lp by (simp_all add: p)
  then show ?thesis by (simp add: o t)
qed

text \<open>
  Claim C3, at the same key, rounds and initialization vector and the ciphertext of eight
  zero bytes.  \<open>decrypt\<close> of OFB and of CTR is \<open>encrypt\<close>: it pads its input and strips
  nothing, so one block of ciphertext decrypts to 16 bytes.
\<close>

theorem stream_modes_decrypt_pads:
  "mode_decrypt OFB example_mode [0, 0, 0, 0, 0, 0, 0, 0]
     = mode_encrypt OFB example_mode [0, 0, 0, 0, 0, 0, 0, 0] \<and>
   \<not> isl (mode_decrypt OFB example_mode [0, 0, 0, 0, 0, 0, 0, 0]) \<and>
   length (projr (mode_decrypt OFB example_mode [0, 0, 0, 0, 0, 0, 0, 0])) = 16 \<and>
   mode_decrypt CTR example_mode [0, 0, 0, 0, 0, 0, 0, 0]
     = mode_encrypt CTR example_mode [0, 0, 0, 0, 0, 0, 0, 0] \<and>
   \<not> isl (mode_decrypt CTR example_mode [0, 0, 0, 0, 0, 0, 0, 0]) \<and>
   length (projr (mode_decrypt CTR example_mode [0, 0, 0, 0, 0, 0, 0, 0])) = 16"
proof -
  let ?c = "[0, 0, 0, 0, 0, 0, 0, 0] :: byte list"
  note iv = example_mode_eq(2)
  from iv have wf: "wf_engine example_engine" and l: "length example_iv = 8"
    by (simp_all add: iv_ok_def ecb_ok_def)
  have n: "length ?c div 8 + 1 = 2" by simp
  have b: "int_from_bytes example_iv + length ?c div 8 + 1 \<le> 2 ^ 64"
    using example_lengths(2) by simp
  have o: "length (ofb_stream example_engine example_iv (length ?c div 8 + 1)) = length ?c div 8 + 1"
    "\<forall>k\<in>set (ofb_stream example_engine example_iv (length ?c div 8 + 1)). length k = 8"
    using ofb_stream_lengths [OF wf l, of "length ?c div 8 + 1"] by blast+
  have t: "length (ctr_stream example_engine (int_from_bytes example_iv) (length ?c div 8 + 1))
             = length ?c div 8 + 1"
    "\<forall>k\<in>set (ctr_stream example_engine (int_from_bytes example_iv) (length ?c div 8 + 1)).
       length k = 8"
    using ctr_stream_lengths [OF wf, of "int_from_bytes example_iv" "length ?c div 8 + 1"]
    by blast+
  have "length (projr (OFB_encrypt example_mode ?c)) = 16"
    unfolding OFB_encrypt_ok [OF iv] sum.sel using stream_encrypt_length [OF o(2) o(1)] by simp
  moreover have "length (projr (CTR_encrypt example_mode ?c)) = 16"
    unfolding CTR_encrypt_ok [OF iv b] sum.sel using stream_encrypt_length [OF t(2) t(1)] by simp
  moreover have "\<not> isl (OFB_encrypt example_mode ?c)" "\<not> isl (CTR_encrypt example_mode ?c)"
    unfolding OFB_encrypt_ok [OF iv] CTR_encrypt_ok [OF iv b] by simp_all
  ultimately show ?thesis by (simp add: OFB_decrypt_def CTR_decrypt_def)
qed


section \<open>Construction of engines and modes\<close>

text \<open>
  Claim C4, as the claim states it, fails: \<open>DES.__init__\<close> called with 5 rounds and with
  40 rounds returns an engine that has 5 and 40 subkeys.
\<close>

theorem rounds_out_of_range_accepted:
  "\<not> isl (DES_init example_key 64 5 64 None) \<and>
   des_rounds (projr (DES_init example_key 64 5 64 None)) = 5 \<and>
   length (des_subkeys (projr (DES_init example_key 64 5 64 None))) = 5 \<and>
   \<not> isl (DES_init example_key 64 40 64 None) \<and>
   des_rounds (projr (DES_init example_key 64 40 64 None)) = 40 \<and>
   length (des_subkeys (projr (DES_init example_key 64 40 64 None))) = 40"
  by (simp add: DES_init_Inr)

text \<open>
  Claim C4, amended.  \<open>DES.__init__\<close> has no check of the round count: for every key,
  every round count and all other arguments it returns an engine that stores the round
  count as given and holds that many subkeys, none for a round count below 1.  It neither
  rejects nor clamps.
\<close>

theorem DES_init_any_rounds:
  "\<exists>e. DES_init key bs r kl iv = Inr e \<and> des_rounds e = r \<and>
       length (des_subkeys e) = nat r"
  by (simp add: DES_init_Inr)

text \<open>
  Claim C5, as the claim states it, fails: constructing a mode over an engine without
  initialization vector returns a mode object whose vector is absent; the error appears
  when CBC \<open>encrypt\<close> is called on it.
\<close>

theorem mode_without_iv_constructed:
  "\<not> isl (BaseMode_init (Some example_engine_no_iv)) \<and>
   mode_iv example_mode_no_iv = None \<and>
   mode_encrypt CBC example_mode_no_iv example_plaintext
     = Inl (ValueError ''IV must be set for CBC mode'')"
proof -
  have "DES_init example_key 64 16 64 None = Inr example_engine_no_iv"
    by (simp add: example_engine_no_iv_def DES_init_Inr)
  from mode_of_engine(1) [OF this] show ?thesis
    by (simp add: example_mode_no_iv_def CBC_encrypt_def)
qed

text \<open>
  Claim C5, amended.  Constructing a mode never fails, with or without an engine and
  whatever the engine's initialization vector is; the mode takes the engine's vector as
  it is.  When the vector is absent or empty, every call of \<open>encrypt\<close> and of \<open>decrypt\<close>
  of CBC, CFB, OFB and CTR on a mode with an engine raises \<open>ValueError\<close> with the message
  that the vector must be set.
\<close>

theorem missing_iv_fails_at_use:
  "\<exists>m. BaseMode_init d = Inr m \<and>
       (\<forall>e. d = Some e \<longrightarrow> mode_des m = d \<and> mode_iv m = des_iv e) \<and>
       (d \<noteq> None \<and> (mode_iv m = None \<or> mode_iv m = Some []) \<longrightarrow>
          mode_encrypt CBC m x = Inl (ValueError ''IV must be set for CBC mode'') \<and>
          mode_decrypt CBC m x = Inl (ValueError ''IV must be set for CBC mode'') \<and>
          mode_encrypt CFB m x = Inl (ValueError ''IV must be set for CFB mode'') \<and>
          mode_decrypt CFB m x = Inl (ValueError ''IV must be set for CFB mode'') \<and>
          mode_encrypt OFB m x = Inl (ValueError ''IV must be set for OFB mode'') \<and>
          mode_decrypt OFB m x = Inl (ValueError ''IV must be set for OFB mode'') \<and>
          mode_encrypt CTR m x = Inl (ValueError ''IV must be set for CTR mode'') \<and>
          mode_decrypt CTR m x = Inl (ValueError ''IV must be set for CTR mode''))"
  by (cases d)
    (auto simp: BaseMode_init_def CBC_encrypt_def CBC_decrypt_def CFB_encrypt_def
      CFB_decrypt_def OFB_encrypt_def OFB_decrypt_def CTR_encrypt_def CTR_decrypt_def)

theorem missing_iv_fails_at_use_witness:
  "Some example_engine_no_iv \<noteq> None \<and> des_iv example_engine_no_iv = None \<and>
   (\<exists>m. BaseMode_init (Some example_engine_no_iv) = Inr m \<and>
        mode_encrypt CTR m example_plaintext = Inl (ValueError ''IV must be set for CTR mode''))"
proof -
  have "des_iv example_engine_no_iv = None"
    by (simp add: example_engine_no_iv_def DES_init_Inr)
  with missing_iv_fails_at_use [of "Some example_engine_no_iv" example_plaintext]
  show ?thesis by auto
qed


section \<open>The counter of CTR\<close>

lemma ctr_keystream_direct_ok:
  assumes "wf_engine e" "int_from_bytes iv + i < 2 ^ 64"
  shows "ctr_keystream_direct e iv i = Inr (enc e (bytes8 (int_from_bytes iv + i)))"
proof -
  have eb: "encrypt_block e (bytes8 (int_from_bytes iv + i))
            = Inr (enc e (bytes8 (int_from_bytes iv + i)))"
    using assms(1) by (rule encrypt_block_wf) simp
  from assms(2) show ?thesis
    by (simp add: ctr_keystream_direct_def int_to_bytes_8 eb)
qed

text \<open>
  Claim C8.  For an engine built from any key and round count with the default block
  size and an initialization vector of 8 bytes whose counter does not leave 64 bits on
  the input, \<open>CTR.encrypt\<close>, which steps a counter from block to block, returns for
  every block \<open>i\<close> of the padded input that block xor-ed with the key stream block
  computed from the vector and \<open>i\<close> alone: the encryption of the 8-byte big-endian
  encoding of the vector's integer value plus \<open>i\<close>.
\<close>

theorem ctr_direct_equals_sequential:
  "length iv = 8 \<Longrightarrow> int_from_bytes iv + length P div 8 + 1 \<le> 2 ^ 64 \<Longrightarrow>
   \<exists>e m p blocks c cblocks.
      DES_init key 64 r kl (Some iv) = Inr e \<and> BaseMode_init (Some e) = Inr m \<and>
      pad P 8 = Inr p \<and> get_blocks m p = Inr blocks \<and> length blocks = length P div 8 + 1 \<and>
      CTR_encrypt m P = Inr c \<and> get_blocks m c = Inr cblocks \<and>
      length cblocks = length blocks \<and>
      (\<forall>i<length blocks.
          \<exists>k. ctr_keystream_direct e iv i = Inr k \<and> length k = 8 \<and>
              k = projr (encrypt_block e (projr (int_to_bytes (int_from_bytes iv + i) 8))) \<and>
              cblocks ! i = xor_bytes (blocks ! i) k \<and>
              k = xor_bytes (cblocks ! i) (blocks ! i))"
proof -
  assume iv: "length iv = 8" and b: "int_from_bytes iv + length P div 8 + 1 \<le> 2 ^ 64"
  obtain e where e: "DES_init key 64 r kl (Some iv) = Inr e" by (simp add: DES_init_Inr)
  define m where "m = \<lparr>mode_des = Some e, mode_block_size_bytes = 8, mode_iv = Some iv\<rparr>"
  have bm: "BaseMode_init (Some e) = Inr m"
    unfolding m_def by (rule mode_of_engine(1) [OF e])
  have ok: "iv_ok m e iv" unfolding m_def using e iv by (rule iv_ok_of_engine)
  then have wf: "wf_engine e" and m8: "mode_block_size_bytes m = 8"
    by (simp_all add: iv_ok_def ecb_ok_def)
  define v where "v = int_from_bytes iv"
  define n where "n = length P div 8 + 1"
  define blocks where "blocks = chunks 8 (padded P)"
  define ks where "ks = ctr_stream e v n"
  define cblocks where "cblocks = map2 xor_bytes blocks ks"
  have lb: "length blocks = n" by (simp add: blocks_def n_def length_chunks_padded)
  have b8: "\<forall>x\<in>set blocks. length x = 8" unfolding blocks_def by (rule chunks_padded)
  from ctr_stream_lengths [OF wf, of v n]
  have lk: "length ks = n" and k8: "\<forall>k\<in>set ks. length k = 8"
    unfolding ks_def by blast+
  have c8: "\<forall>x\<in>set cblocks. length x = 8"
    unfolding cblocks_def using b8 k8 by (rule map2_xor_bytes_lengths)
  have lc: "length cblocks = n" by (simp add: cblocks_def lb lk)
  have enc: "CTR_encrypt m P = Inr (concat cblocks)"
    unfolding cblocks_def blocks_def ks_def v_def n_def by (rule CTR_encrypt_ok [OF ok b])
  have gb: "get_blocks m (padded P) = Inr blocks"
    unfolding blocks_def using m8 by (rule get_blocks_8)
  have "chunks 8 (concat cblocks) = cblocks" using c8 by (intro chunks_concat) simp_all
  then have gc: "get_blocks m (concat cblocks) = Inr cblocks"
    using get_blocks_8 [OF m8, of "concat cblocks"] by simp
  have each: "\<exists>k. ctr_keystream_direct e iv i = Inr k \<and> length k = 8 \<and>
              k = projr (encrypt_block e (projr (int_to_bytes (int_from_bytes iv + i) 8))) \<and>
              cblocks ! i = xor_bytes (blocks ! i) k \<and>
              k = xor_bytes (cblocks ! i) (blocks ! i)" if i: "i < n" for i
  proof -
    from i b have lt: "int_from_bytes iv + i < 2 ^ 64" by (simp add: n_def)
    have ki: "ks ! i = enc e (bytes8 (v + i))"
      unfolding ks_def using i by (rule ctr_stream_nth)
    have d: "ctr_keystream_direct e iv i = Inr (ks ! i)"
      unfolding ki v_def using wf lt by (rule ctr_keystream_direct_ok)
    have "ks ! i \<in> set ks" using i lk by simp
    with k8 have l: "length (ks ! i) = 8" by blast
    have "blocks ! i \<in> set blocks" using i lb by simp
    with b8 have lbi: "length (blocks ! i) = 8" by blast
    have ci: "cblocks ! i = xor_bytes (blocks ! i) (ks ! i)"
      using i lb lk by (simp add: cblocks_def)
    have "xor_bytes (xor_bytes (blocks ! i) (ks ! i)) (blocks ! i) = ks ! i"
      using lbi l by (intro xor_bytes_cancel2) simp
    then have bk: "ks ! i = xor_bytes (cblocks ! i) (blocks ! i)" by (simp add: ci)
    have eb: "encrypt_block e (bytes8 (v + i)) = Inr (ks ! i)"
      unfolding ki using wf by (rule encrypt_block_wf) simp
    have tb: "int_to_bytes (int_from_bytes iv + i) 8 = Inr (bytes8 (v + i))"
      using lt by (simp add: int_to_bytes_8 v_def)
    have p: "ks ! i = projr (encrypt_block e (projr (int_to_bytes (int_from_bytes iv + i) 8)))"
      by (simp only: tb sum.sel eb)
    from d l p ci bk show ?thesis by blast
  qed
  have f1: "pad P 8 = Inr (padded P)" by (rule pad_padded)
  have f2: "length blocks = length P div 8 + 1" using lb by (simp only: n_def)
  have f3: "length cblocks = length blocks" using lc lb by simp
  have f4: "\<forall>i<length blocks.
          \<exists>k. ctr_keystream_direct e iv i = Inr k \<and> length k = 8 \<and>
              k = projr (encrypt_block e (projr (int_to_bytes (int_from_bytes iv + i) 8))) \<and>
              cblocks ! i = xor_bytes (blocks ! i) k \<and>
              k = xor_bytes (cblocks ! i) (blocks ! i)"
    unfolding lb using each by blast
  show ?thesis
    by (intro exI conjI) (rule e bm f1 gb f2 enc gc f3 f4)+
qed

theorem ctr_direct_equals_sequential_witness:
  "length example_iv = 8 \<and> int_from_bytes example_iv + length example_plaintext div 8 + 1 \<le> 2 ^ 64 \<and>
   (\<exists>e m c. DES_init example_key 64 16 64 (Some example_iv) = Inr e \<and>
            BaseMode_init (Some e) = Inr m \<and> CTR_encrypt m example_plaintext = Inr c)"
proof -
  have h: "length example_iv = 8"
    "int_from_bytes example_iv + length example_plaintext div 8 + 1 \<le> 2 ^ 64"
    using example_lengths by (simp_all add: example_iv_def)
  from ctr_direct_equals_sequential [OF h, of example_key 16 64] h show ?thesis by blast
qed

text \<open>
  Claim C10.  For an engine built from any key and round count with the default block
  size and an initialization vector of 8 bytes with integer value \<open>v\<close>: when \<open>v + k\<close>
  reaches \<open>2 ^ 64\<close> for the index \<open>k\<close> of some block of the padded input, \<open>CTR.encrypt\<close>
  and \<open>CTR.decrypt\<close> raise \<open>OverflowError\<close>, which is none of the \<open>ValueError\<close>s of the
  program; the counter does not wrap.
\<close>

theorem ctr_counter_overflow:
  "length iv = 8 \<Longrightarrow> k < length (projr (pad X 8)) div 8 \<Longrightarrow> 2 ^ 64 \<le> int_from_bytes iv + k \<Longrightarrow>
   \<exists>e m. DES_init key 64 r kl (Some iv) = Inr e \<and> BaseMode_init (Some e) = Inr m \<and>
         CTR_encrypt m X = Inl OverflowError \<and> CTR_decrypt m X = Inl OverflowError \<and>
         (\<forall>s. CTR_encrypt m X \<noteq> Inl (ValueError s))"
proof -
  assume iv: "length iv = 8" and k: "k < length (projr (pad X 8)) div 8"
    and o: "2 ^ 64 \<le> int_from_bytes iv + k"
  obtain e where e: "DES_init key 64 r kl (Some iv) = Inr e" by (simp add: DES_init_Inr)
  define m where "m = \<lparr>mode_des = Some e, mode_block_size_bytes = 8, mode_iv = Some iv\<rparr>"
  have bm: "BaseMode_init (Some e) = Inr m"
    unfolding m_def by (rule mode_of_engine(1) [OF e])
  have ok: "iv_ok m e iv" unfolding m_def using e iv by (rule iv_ok_of_engine)
  from k have "k \<le> length X div 8" by (simp add: pad_padded length_padded)
  with o have "2 ^ 64 \<le> int_from_bytes iv + length X div 8" by simp
  with ok have "CTR_encrypt m X = Inl OverflowError" by (rule CTR_encrypt_overflow)
  with e bm show ?thesis by (simp add: CTR_decrypt_def)
qed

theorem ctr_counter_overflow_witness:
  "length [255, 255, 255, 255, 255, 255, 255, 255 :: byte] = 8 \<and>
   (1 :: nat) < length (projr (pad example_plaintext 8)) div 8 \<and>
   (2 :: nat) ^ 64 \<le> int_from_bytes [255, 255, 255, 255, 255, 255, 255, 255] + 1 \<and>
   (\<exists>e m. DES_init example_key 64 16 64 (Some [255, 255, 255, 255, 255, 255, 255, 255]) = Inr e \<and>
          BaseMode_init (Some e) = Inr m \<and>
          CTR_encrypt m example_plaintext = Inl OverflowError)"
proof -
  have h: "length [255, 255, 255, 255, 255, 255, 255, 255 :: byte] = 8"
    "(1 :: nat) < length (projr (pad example_plaintext 8)) div 8"
    "(2 :: nat) ^ 64 \<le> int_from_bytes [255, 255, 255, 255, 255, 255, 255, 255] + 1"
    by (simp_all add: int_from_bytes_def pad_padded length_padded example_plaintext_def)
  from ctr_counter_overflow [OF h, of example_key 16 64] h show ?thesis by blast
qed


section \<open>The engine's own encrypt and decrypt\<close>

lemma b64_char_value:
  assumes "v < 64"
  shows "b64_value (b64_char v) = Some v" "b64_char v \<noteq> 61"
proof -
  have u: "unat (b64_char v) =
     (if v < 26 then 65 + v else if v < 52 then 71 + v else if v < 62 then v - 4
      else if v = 62 then 43 else 47)"
    using assms unat_small_byte [of "65 + v"] unat_small_byte [of "71 + v"]
      unat_small_byte [of "v - 4"]
    by (simp add: b64_char_def del: of_nat_add of_nat_diff)
  show "b64_value (b64_char v) = Some v"
    unfolding b64_value_def u using assms by auto
  have "unat (b64_char v) \<noteq> unat (61 :: byte)"
    unfolding u using assms by auto
  then show "b64_char v \<noteq> 61" by auto
qed

lemma a2b_group:
  assumes "v1 < 64" "v2 < 64" "v3 < 64" "v4 < 64"
  shows "a2b_loop (b64_char v1 # b64_char v2 # b64_char v3 # b64_char v4 # rest) 0 0 0 out
         = a2b_loop rest 0 0 0
             (out @ [of_nat (v1 * 4 + v2 div 16), of_nat (v2 mod 16 * 16 + v3 div 4),
                     of_nat (v3 mod 4 * 64 + v4)])"
  by (simp add: b64_char_value assms)

lemma pack_div_mod:
  fixes q r n :: nat
  assumes "q < n"
  shows "(r * n + q) div n = r" "(r * n + q) mod n = q"
  using assms by simp_all

lemma byte_parts:
  fixes a :: byte
  shows "unat a div 4 < 64" "unat a div 16 < 16" "unat a div 64 < 4"
    "unat a mod 4 < 4" "unat a mod 16 < 16" "unat a mod 64 < 64"
proof -
  have a: "unat a < 256" using unsigned_less [of a, where 'a = nat] by simp
  then show "unat a div 4 < 64" "unat a div 16 < 16" "unat a div 64 < 4"
    by (simp_all add: less_mult_imp_div_less)
  show "unat a mod 4 < 4" "unat a mod 16 < 16" "unat a mod 64 < 64" by simp_all
qed

lemma byte_split:
  fixes a b :: byte
  shows "unat a mod 4 * 16 + unat b div 16 < 64"
    "unat a mod 16 * 4 + unat b div 64 < 64"
    "unat a mod 4 * 16 < 64" "unat a mod 16 * 4 < 64"
proof -
  define r4 where "r4 = unat a mod 4"
  define r16 where "r16 = unat a mod 16"
  define q16 where "q16 = unat b div 16"
  define q64 where "q64 = unat b div 64"
  have "r4 < 4" "r16 < 16" "q16 < 16" "q64 < 4"
    unfolding r4_def r16_def q16_def q64_def by (rule byte_parts)+
  then have "r4 * 16 + q16 < 64" "r16 * 4 + q64 < 64" "r4 * 16 < 64" "r16 * 4 < 64"
    by linarith+
  then show "unat a mod 4 * 16 + unat b div 16 < 64"
    "unat a mod 16 * 4 + unat b div 64 < 64"
    "unat a mod 4 * 16 < 64" "unat a mod 16 * 4 < 64"
    unfolding r4_def r16_def q16_def q64_def .
qed

lemma byte_join:
  fixes a b c :: byte
  shows "of_nat (unat a div 4 * 4 + (unat a mod 4 * 16 + unat b div 16) div 16) = a"
    "of_nat ((unat a mod 4 * 16 + unat b div 16) mod 16 * 16
              + (unat b mod 16 * 4 + unat c div 64) div 4) = b"
    "of_nat ((unat b mod 16 * 4 + unat c div 64) mod 4 * 64 + unat c mod 64) = c"
    "of_nat (unat a div 4 * 4 + (unat a mod 4 * 16) div 16) = a"
    "of_nat ((unat a mod 4 * 16 + unat b div 16) mod 16 * 16 + (unat b mod 16 * 4) div 4) = b"
proof -
  note p1 = pack_div_mod [OF byte_parts(2) [of b], of "unat a mod 4"]
  note p2 = pack_div_mod [OF byte_parts(3) [of c], of "unat b mod 16"]
  have j4: "unat x div 4 * 4 + unat x mod 4 = unat x" for x :: byte by simp
  have j16: "unat x div 16 * 16 + unat x mod 16 = unat x" for x :: byte by simp
  have j64: "unat x div 64 * 64 + unat x mod 64 = unat x" for x :: byte by simp
  show "of_nat (unat a div 4 * 4 + (unat a mod 4 * 16 + unat b div 16) div 16) = a"
    by (simp only: p1 j4 of_nat_unat ucast_id)
  show "of_nat ((unat a mod 4 * 16 + unat b div 16) mod 16 * 16
              + (unat b mod 16 * 4 + unat c div 64) div 4) = b"
    by (simp only: p1 p2 j16 of_nat_unat ucast_id)
  show "of_nat ((unat b mod 16 * 4 + unat c div 64) mod 4 * 64 + unat c mod 64) = c"
    by (simp only: p2 j64 of_nat_unat ucast_id)
  have "(unat a mod 4 * 16) div 16 = unat a mod 4" by simp
  then show "of_nat (unat a div 4 * 4 + (unat a mod 4 * 16) div 16) = a"
    by (simp only: j4 of_nat_unat ucast_id)
  have "(unat b mod 16 * 4) div 4 = unat b mod 16" by simp
  then show "of_nat ((unat a mod 4 * 16 + unat b div 16) mod 16 * 16 + (unat b mod 16 * 4) div 4) = b"
    by (simp only: p1 j16 of_nat_unat ucast_id)
qed

lemma a2b_pad_two:
  assumes "v1 < 64" "v2 < 64"
  shows "a2b_loop [b64_char v1, b64_char v2, 61, 61] 0 0 0 out
         = Inr (out @ [of_nat (v1 * 4 + v2 div 16)])"
  by (simp add: b64_char_value assms)

lemma a2b_pad_one:
  assumes "v1 < 64" "v2 < 64" "v3 < 64"
  shows "a2b_loop [b64_char v1, b64_char v2, b64_char v3, 61] 0 0 0 out
         = Inr (out @ [of_nat (v1 * 4 + v2 div 16), of_nat (v2 mod 16 * 16 + v3 div 4)])"
  by (simp add: b64_char_value assms)

lemma a2b_loop_b64encode: "a2b_loop (b64encode x) 0 0 0 out = Inr (out @ x)"
proof (induction x arbitrary: out rule: b64encode.induct)
  case (1 a b c rest)
  have "a2b_loop (b64encode (a # b # c # rest)) 0 0 0 out
        = a2b_loop (b64encode rest) 0 0 0 (out @ [a, b, c])"
    unfolding b64encode.simps append.simps
    by (subst a2b_group) (simp_all only: byte_parts byte_split byte_join)
  then show ?case by (simp add: 1)
next
  case (2 a b)
  show ?case
    unfolding b64encode.simps
    by (subst a2b_pad_one) (simp_all only: byte_parts byte_split byte_join)
next
  case (3 a)
  show ?case
    unfolding b64encode.simps
    by (subst a2b_pad_two) (simp_all only: byte_parts byte_split byte_join)
next
  case 4
  show ?case by simp
qed

lemma b64decode_b64encode: "b64decode (b64encode x) = Inr x"
  by (simp add: b64decode_def a2b_loop_b64encode)

text \<open>
  Claim C9.  \<open>DES.encrypt\<close> returns the base64 encoding of the reversed input and
  \<open>DES.decrypt\<close> maps it back to the input; two engines built from any two keys, round
  counts and other arguments give the same results on every input, for \<open>encrypt\<close> and
  for \<open>decrypt\<close>.
\<close>

theorem engine_encrypt_is_keyless:
  "\<exists>e1 e2. DES_init key1 bs1 r1 kl1 iv1 = Inr e1 \<and> DES_init key2 bs2 r2 kl2 iv2 = Inr e2 \<and>
           DES_encrypt e1 P = b64encode (rev P) \<and>
           DES_decrypt e1 (DES_encrypt e1 P) = Inr P \<and>
           DES_encrypt e1 P = DES_encrypt e2 P \<and>
           DES_decrypt e1 X = DES_decrypt e2 X"
  by (simp add: DES_init_Inr DES_encrypt_def DES_decrypt_def b64decode_b64encode)


end
